theory Spec2Isabelle
  imports Main "HOL-Library.Word"
begin

section \<open>The diff hunk parser of \<^verbatim>\<open>src/common/diffHunk.ts\<close>\<close>

text \<open>
  The development embeds the unified-diff parser and the content reconstructor of
  \<^verbatim>\<open>diffHunk.ts\<close>. Strings are \<^typ>\<open>string\<close>, arrays are lists, \<^verbatim>\<open>undefined\<close>
  and \<^verbatim>\<open>null\<close> are \<^term>\<open>None\<close>, generators are the lists of the values they yield.

  A JavaScript number is a double. The numbers that the program converts from text and
  adds to (line numbers) are modelled as the integers that are doubles, together with
  \<^verbatim>\<open>NaN\<close> and \<^verbatim>\<open>Infinity\<close>: a conversion or an addition rounds its exact result to
  the nearest double, ties to even, and overflows to \<^verbatim>\<open>Infinity\<close>. The conversion
  \<^verbatim>\<open>x | 0\<close> to a signed 32-bit integer is written out with a \<^typ>\<open>32 word\<close>. Counters
  of lines and characters (the position, the number of carriage returns, the length of an
  array) are integers: they are bounded by the length of a string or an array, which is
  below \<open>2 ^ 53\<close> in the language. The counter of a copy loop of the reconstructor is an
  integer as well, which is exact for a bound below \<open>2 ^ 53\<close>. A character is a
  \<^typ>\<open>char\<close>; the program distinguishes only the characters of the header pattern, the
  three line prefixes, \<open>CR\<close> and \<open>LF\<close>.
\<close>

subsection \<open>Characters and string primitives\<close>

abbreviation LF :: char where "LF \<equiv> CHR 0x0A"
abbreviation CR :: char where "CR \<equiv> CHR 0x0D"

text \<open>Index of the first occurrence of a character in a list.\<close>

primrec first_index :: "string \<Rightarrow> char \<Rightarrow> nat option" where
  "first_index [] c = None"
| "first_index (x # xs) c = (if x = c then Some 0 else map_option Suc (first_index xs c))"

text \<open>\<^verbatim>\<open>text.indexOf(c, from)\<close>; \<^term>\<open>None\<close> stands for the result \<open>-1\<close>.\<close>

definition indexOf :: "string \<Rightarrow> char \<Rightarrow> nat \<Rightarrow> nat option" where
  "indexOf text c from = map_option (\<lambda>i. from + i) (first_index (drop from text) c)"

text \<open>\<^verbatim>\<open>text.substr(start, length)\<close>: a length that is not positive gives the empty string.\<close>

definition substr :: "string \<Rightarrow> nat \<Rightarrow> int \<Rightarrow> string" where
  "substr text start len = take (nat len) (drop start text)"

text \<open>\<^verbatim>\<open>text[i]\<close>, which is \<^verbatim>\<open>undefined\<close> out of range.\<close>

definition charAt :: "string \<Rightarrow> int \<Rightarrow> char option" where
  "charAt text i = (if 0 \<le> i \<and> i < int (length text) then Some (text ! nat i) else None)"

lemma first_index_Some:
  "first_index xs c = Some i \<Longrightarrow> i < length xs \<and> xs ! i = c \<and> c \<notin> set (take i xs)"
proof (induction xs arbitrary: i)
  case Nil
  then show ?case by simp
next
  case (Cons x xs)
  show ?case
  proof (cases "x = c")
    case True
    with Cons.prems show ?thesis by simp
  next
    case False
    with Cons.prems obtain j where j: "first_index xs c = Some j" "i = Suc j"
      by auto
    from Cons.IH [OF j(1)] False j(2) show ?thesis by simp
  qed
qed

lemma first_index_None: "first_index xs c = None \<longleftrightarrow> c \<notin> set xs"
  by (induction xs) auto

lemma first_index_append_hit:
  "c \<notin> set l \<Longrightarrow> first_index (l @ c # rest) c = Some (length l)"
  by (induction l) auto

lemma indexOf_Some:
  "indexOf text c from = Some i \<Longrightarrow> from \<le> i \<and> i < length text \<and> text ! i = c"
proof -
  assume "indexOf text c from = Some i"
  then obtain k where k: "first_index (drop from text) c = Some k" "i = from + k"
    by (auto simp: indexOf_def)
  from first_index_Some [OF k(1)] k(2) show ?thesis
    by (auto simp: add.commute)
qed

subsection \<open>countCarriageReturns\<close>

function countCarriageReturns_loop :: "string \<Rightarrow> nat \<Rightarrow> nat \<Rightarrow> nat" where
  "countCarriageReturns_loop text index count =
     (case indexOf text CR index of
        None \<Rightarrow> count
      | Some i \<Rightarrow> countCarriageReturns_loop text (i + 1) (count + 1))"
  by pat_completeness auto
termination
  by (relation "measure (\<lambda>(text, index, count). length text - index)")
     (auto dest: indexOf_Some)

definition countCarriageReturns :: "string \<Rightarrow> nat" where
  "countCarriageReturns text = countCarriageReturns_loop text 0 0"

subsection \<open>LineReader\<close>

text \<open>
  One run of the generator's loop from the cursor \<open>index\<close>: the list of the lines it
  yields. The cursor value \<open>-1\<close> ends the loop, so the branch in which \<^verbatim>\<open>indexOf\<close>
  finds nothing yields the rest of the text and stops.
\<close>

function LineReader_from :: "string \<Rightarrow> nat \<Rightarrow> string list" where
  "LineReader_from text index =
     (if index < length text then
        (case indexOf text LF index of
           None \<Rightarrow> [substr text index (int (length text) - int index)]
         | Some i \<Rightarrow>
             (let len = int i - int index;
                  len' = (if i > 0 \<and> charAt text (int i - 1) = Some CR then len - 1 else len)
              in substr text index len' # LineReader_from text (i + 1)))
      else [])"
  by pat_completeness auto
termination
  by (relation "measure (\<lambda>(text, index). length text - index)")
     (auto dest: indexOf_Some)

definition LineReader :: "string \<Rightarrow> string list" where
  "LineReader text = LineReader_from text 0"

subsection \<open>The pattern DIFF_HUNK_HEADER\<close>

text \<open>
  \<^verbatim>\<open>/@@ \-(\d+)(,(\d+))?( \+(\d+)(,(\d+)?)?)? @@/\<close>

  The pattern has no anchor, so \<^verbatim>\<open>test\<close> and \<^verbatim>\<open>exec\<close> try it at every position
  of the line from the left. At one position the match is decided without search: a run
  of digits is always followed by a character that is not a digit (\<open>,\<close> or a blank), so
  \<^verbatim>\<open>\d+\<close> takes the whole run, and an optional group either matches where it stands or
  is skipped, and the character after a skipped group (a blank) is never the first one
  of the group (\<open>,\<close>) or is followed by \<open>@\<close> instead of \<open>+\<close>.
\<close>

definition isDigit :: "char \<Rightarrow> bool" where
  "isDigit c = (48 \<le> (of_char c :: nat) \<and> (of_char c :: nat) \<le> 57)"

definition drop_prefix :: "string \<Rightarrow> string \<Rightarrow> string option" where
  "drop_prefix p s = (if take (length p) s = p then Some (drop (length p) s) else None)"

text \<open>The capture groups that the parser reads: 1, 3, 5 and 7.\<close>

record captures =
  group1 :: "string option"
  group3 :: "string option"
  group5 :: "string option"
  group7 :: "string option"

text \<open>\<^verbatim>\<open>(,(\d+))?\<close>: the third group and the rest of the input.\<close>

definition match_group2 :: "string \<Rightarrow> string option \<times> string" where
  "match_group2 s =
     (case drop_prefix '','' s of
        None \<Rightarrow> (None, s)
      | Some t \<Rightarrow>
          (if takeWhile isDigit t = [] then (None, s)
           else (Some (takeWhile isDigit t), dropWhile isDigit t)))"

text \<open>\<^verbatim>\<open>(,(\d+)?)?\<close>: the seventh group and the rest of the input.\<close>

definition match_group6 :: "string \<Rightarrow> string option \<times> string" where
  "match_group6 s =
     (case drop_prefix '','' s of
        None \<Rightarrow> (None, s)
      | Some t \<Rightarrow>
          (if takeWhile isDigit t = [] then (None, t)
           else (Some (takeWhile isDigit t), dropWhile isDigit t)))"

text \<open>\<^verbatim>\<open>( \+(\d+)(,(\d+)?)?)?\<close>: the fifth and seventh groups and the rest of the input.\<close>

definition match_group4 :: "string \<Rightarrow> string option \<times> string option \<times> string" where
  "match_group4 s =
     (case drop_prefix '' +'' s of
        None \<Rightarrow> (None, None, s)
      | Some t \<Rightarrow>
          (if takeWhile isDigit t = [] then (None, None, s)
           else (case match_group6 (dropWhile isDigit t) of
                   (g7, rest) \<Rightarrow> (Some (takeWhile isDigit t), g7, rest))))"

text \<open>The whole pattern at the start of \<open>s\<close>.\<close>

definition match_here :: "string \<Rightarrow> captures option" where
  "match_here s =
     (case drop_prefix ''@@ -'' s of
        None \<Rightarrow> None
      | Some t \<Rightarrow>
          (if takeWhile isDigit t = [] then None
           else (case match_group2 (dropWhile isDigit t) of
                   (g3, t3) \<Rightarrow>
                     (case match_group4 t3 of
                        (g5, g7, t4) \<Rightarrow>
                          (case drop_prefix '' @@'' t4 of
                             None \<Rightarrow> None
                           | Some _ \<Rightarrow>
                               Some \<lparr>group1 = Some (takeWhile isDigit t), group3 = g3,
                                     group5 = g5, group7 = g7\<rparr>)))))"

text \<open>\<^verbatim>\<open>DIFF_HUNK_HEADER.exec(line)\<close>: the captures of the leftmost match, or \<^verbatim>\<open>null\<close>.\<close>

fun DIFF_HUNK_HEADER_exec :: "string \<Rightarrow> captures option" where
  "DIFF_HUNK_HEADER_exec [] = match_here []"
| "DIFF_HUNK_HEADER_exec (c # cs) =
     (case match_here (c # cs) of
        Some m \<Rightarrow> Some m
      | None \<Rightarrow> DIFF_HUNK_HEADER_exec cs)"

text \<open>\<^verbatim>\<open>DIFF_HUNK_HEADER.test(line)\<close>: whether the pattern matches at some position.\<close>

definition DIFF_HUNK_HEADER_test :: "string \<Rightarrow> bool" where
  "DIFF_HUNK_HEADER_test line =
     list_ex (\<lambda>i. match_here (drop i line) \<noteq> None) [0 ..< Suc (length line)]"

subsection \<open>Numbers\<close>

text \<open>
  A number of the program: an integer that is a double, \<^verbatim>\<open>NaN\<close>, or \<^verbatim>\<open>Infinity\<close>.
  No negative infinity arises: the negative numbers of the program are the cursor \<open>-1\<close>
  and sums of a line number, a 32-bit length and \<open>-1\<close>.
\<close>

datatype jsnum = Num int | NaN | Infinity

text \<open>
  Rounding of a natural number to a double. The binary exponent \<open>e\<close> is the number of
  low bits that do not fit into the 53 bits of the significand; the number is rounded to
  the nearest multiple of \<open>2 ^ e\<close>, and to the multiple with the even significand when it
  lies halfway.
\<close>

function exponent :: "int \<Rightarrow> nat" where
  "exponent n = (if n < 2 ^ 53 then 0 else Suc (exponent (n div 2)))"
  by pat_completeness auto
termination
  by (relation "measure nat") auto

definition round_double :: "int \<Rightarrow> int" where
  "round_double n =
     (let e = exponent n; q = n div 2 ^ e; r = n mod 2 ^ e
      in if 2 ^ e < 2 * r \<or> (2 * r = 2 ^ e \<and> odd q) then (q + 1) * 2 ^ e else q * 2 ^ e)"

text \<open>
  The double of an exact integer result; a result of \<open>2 ^ 1024\<close> or more after rounding
  is \<^verbatim>\<open>Infinity\<close>.
\<close>

definition to_double :: "int \<Rightarrow> jsnum" where
  "to_double x =
     (let r = (if x < 0 then - round_double (- x) else round_double x)
      in if 2 ^ 1024 \<le> r then Infinity else Num r)"

definition digit_value :: "char \<Rightarrow> int" where
  "digit_value c = of_char c - 48"

definition decimal :: "string \<Rightarrow> int" where
  "decimal ds = foldl (\<lambda>a c. 10 * a + digit_value c) 0 ds"

text \<open>
  \<^verbatim>\<open>Number(x)\<close> for a capture group: \<^verbatim>\<open>undefined\<close> converts to \<^verbatim>\<open>NaN\<close>, a string of
  decimal digits to the double nearest to its value (the empty string to 0). The parser
  passes nothing else (the groups are \<^verbatim>\<open>\d+\<close>).
\<close>

definition Number :: "string option \<Rightarrow> jsnum" where
  "Number x =
     (case x of
        None \<Rightarrow> NaN
      | Some ds \<Rightarrow> (if list_all isDigit ds then to_double (decimal ds) else NaN))"

text \<open>
  \<^verbatim>\<open>x | 0\<close>: \<^verbatim>\<open>NaN\<close> and \<^verbatim>\<open>Infinity\<close> become 0, an integer is reduced to a signed
  32-bit integer.
\<close>

definition or0 :: "jsnum \<Rightarrow> int" where
  "or0 x =
     (case x of
        NaN \<Rightarrow> 0
      | Infinity \<Rightarrow> 0
      | Num n \<Rightarrow> sint (word_of_int n :: 32 word))"

text \<open>
  \<^verbatim>\<open>x += n\<close> and \<^verbatim>\<open>x + n\<close> for an integer \<open>n\<close>: the double nearest to the exact sum.
\<close>

definition jsadd :: "jsnum \<Rightarrow> int \<Rightarrow> jsnum" where
  "jsadd x n =
     (case x of
        NaN \<Rightarrow> NaN
      | Infinity \<Rightarrow> Infinity
      | Num a \<Rightarrow> to_double (a + n))"

subsection \<open>DiffLine and DiffHunk\<close>

datatype DiffChangeType = Context | Add | Delete | Control

text \<open>
  The fields of a \<^verbatim>\<open>DiffLine\<close> keep their names. A \<^verbatim>\<open>DiffHunk\<close> has fields of the same
  names \<^verbatim>\<open>oldLineNumber\<close>, \<^verbatim>\<open>newLineNumber\<close> and \<^verbatim>\<open>positionInHunk\<close>; they carry the
  prefix \<open>hunk_\<close> here.
\<close>

record DiffLine =
  type :: DiffChangeType
  oldLineNumber :: jsnum
  newLineNumber :: jsnum
  positionInHunk :: int
  raw :: string
  endwithLineBreak :: bool

text \<open>The getter \<^verbatim>\<open>text\<close>: \<^verbatim>\<open>this._raw.substr(1)\<close>.\<close>

definition DiffLine_text :: "DiffLine \<Rightarrow> string" where
  "DiffLine_text d = drop 1 (raw d)"

definition getDiffChangeType :: "string \<Rightarrow> DiffChangeType" where
  "getDiffChangeType text =
     (case charAt text 0 of
        None \<Rightarrow> Control
      | Some c \<Rightarrow>
          (if c = CHR '' '' then Context
           else if c = CHR ''+'' then Add
           else if c = CHR ''-'' then Delete
           else Control))"

record DiffHunk =
  hunk_oldLineNumber :: jsnum
  oldLength :: int
  hunk_newLineNumber :: jsnum
  newLength :: int
  hunk_positionInHunk :: int
  diffLines :: "DiffLine list"

subsection \<open>parseDiffHunk\<close>

datatype error = TypeError

text \<open>
  The local variables of the generator, and the hunks it has yielded so far.
\<close>

record parser_state =
  diffHunk :: "DiffHunk option"
  cur_positionInHunk :: int
  oldLine :: jsnum
  newLine :: jsnum
  yielded :: "DiffHunk list"

definition initial_state :: parser_state where
  "initial_state =
     \<lparr>diffHunk = None, cur_positionInHunk = -1, oldLine = Num (-1), newLine = Num (-1),
      yielded = []\<rparr>"

text \<open>The end of the loop body: \<^verbatim>\<open>if (positionInHunk !== -1) ++positionInHunk\<close>.\<close>

definition advance_position :: "parser_state \<Rightarrow> parser_state" where
  "advance_position s =
     (if cur_positionInHunk s \<noteq> -1
      then s\<lparr>cur_positionInHunk := cur_positionInHunk s + 1\<rparr> else s)"

text \<open>
  The branch of a header line. Reading \<^verbatim>\<open>matches[1]\<close> when \<^verbatim>\<open>exec\<close> has returned
  \<^verbatim>\<open>null\<close> would raise a \<^verbatim>\<open>TypeError\<close>.
\<close>

definition header_branch :: "string \<Rightarrow> parser_state \<Rightarrow> error + parser_state" where
  "header_branch line s =
     (let s1 = (case diffHunk s of
                  Some h \<Rightarrow> s\<lparr>yielded := yielded s @ [h], diffHunk := None\<rparr>
                | None \<Rightarrow> s);
          s2 = (if cur_positionInHunk s1 = -1 then s1\<lparr>cur_positionInHunk := 0\<rparr> else s1)
      in case DIFF_HUNK_HEADER_exec line of
           None \<Rightarrow> Inl TypeError
         | Some matches \<Rightarrow>
             (let oriStartLine = Number (group1 matches);
                  oriLen = or0 (Number (group3 matches));
                  newStartLine = Number (group5 matches);
                  newLen = or0 (Number (group7 matches))
              in Inr (s2\<lparr>oldLine := oriStartLine, newLine := newStartLine,
                     diffHunk := Some
                       \<lparr>hunk_oldLineNumber = oriStartLine, oldLength = oriLen,
                        hunk_newLineNumber = newStartLine, newLength = newLen,
                        hunk_positionInHunk = cur_positionInHunk s2,
                        diffLines =
                          [\<lparr>type = Control, oldLineNumber = Num (-1),
                            newLineNumber = Num (-1),
                            positionInHunk = cur_positionInHunk s2, raw = line,
                            endwithLineBreak = True\<rparr>]\<rparr>\<rparr>)))"

text \<open>The branch of a line that is no header, while the hunk \<open>h\<close> is open.\<close>

definition content_branch :: "string \<Rightarrow> DiffHunk \<Rightarrow> parser_state \<Rightarrow> parser_state" where
  "content_branch line h s =
     (let ty = getDiffChangeType line in
      if ty = Control then
        (if diffLines h \<noteq> [] then
           s\<lparr>diffHunk := Some (h\<lparr>diffLines :=
              (diffLines h)[length (diffLines h) - 1 :=
                 (diffLines h ! (length (diffLines h) - 1))\<lparr>endwithLineBreak := False\<rparr>]\<rparr>)\<rparr>
         else s)
      else
        (let d = \<lparr>type = ty,
                  oldLineNumber = (if ty \<noteq> Add then oldLine s else Num (-1)),
                  newLineNumber = (if ty \<noteq> Delete then newLine s else Num (-1)),
                  positionInHunk = cur_positionInHunk s, raw = line,
                  endwithLineBreak = True\<rparr>;
             s1 = s\<lparr>diffHunk := Some (h\<lparr>diffLines := diffLines h @ [d]\<rparr>)\<rparr>;
             lineCount = 1 + int (countCarriageReturns line)
         in case ty of
              Context \<Rightarrow> s1\<lparr>oldLine := jsadd (oldLine s1) lineCount,
                            newLine := jsadd (newLine s1) lineCount\<rparr>
            | Delete \<Rightarrow> s1\<lparr>oldLine := jsadd (oldLine s1) lineCount\<rparr>
            | Add \<Rightarrow> s1\<lparr>newLine := jsadd (newLine s1) lineCount\<rparr>
            | Control \<Rightarrow> s1))"

text \<open>One turn of the \<^verbatim>\<open>while\<close> loop on the scanned line.\<close>

definition loop_body :: "string \<Rightarrow> parser_state \<Rightarrow> error + parser_state" where
  "loop_body line s =
     (if DIFF_HUNK_HEADER_test line then
        (case header_branch line s of
           Inl e \<Rightarrow> Inl e
         | Inr s' \<Rightarrow> Inr (advance_position s'))
      else
        (case diffHunk s of
           Some h \<Rightarrow> Inr (advance_position (content_branch line h s))
         | None \<Rightarrow> Inr (advance_position s)))"

text \<open>The loop over the scanned lines, and the last \<^verbatim>\<open>yield\<close> after it.\<close>

fun parse_loop :: "string list \<Rightarrow> parser_state \<Rightarrow> error + parser_state" where
  "parse_loop [] s = Inr s"
| "parse_loop (line # rest) s =
     (case loop_body line s of
        Inl e \<Rightarrow> Inl e
      | Inr s' \<Rightarrow> parse_loop rest s')"

definition final_yield :: "parser_state \<Rightarrow> DiffHunk list" where
  "final_yield s = (case diffHunk s of Some h \<Rightarrow> yielded s @ [h] | None \<Rightarrow> yielded s)"

definition parseDiffHunk :: "string \<Rightarrow> error + DiffHunk list" where
  "parseDiffHunk diffHunkPatch =
     (case parse_loop (LineReader diffHunkPatch) initial_state of
        Inl e \<Rightarrow> Inl e
      | Inr s \<Rightarrow> Inr (final_yield s))"

subsection \<open>parsePatch\<close>

text \<open>
  The inner loop shared by \<^verbatim>\<open>parsePatch\<close> and the reconstructor: the text of every
  line that is neither deleted nor a control line is pushed to \<^verbatim>\<open>right\<close>. An entry
  \<^term>\<open>None\<close> of \<^verbatim>\<open>right\<close> is the value \<^verbatim>\<open>undefined\<close>.
\<close>

fun push_diffLines :: "DiffLine list \<Rightarrow> string option list \<Rightarrow> string option list" where
  "push_diffLines [] right = right"
| "push_diffLines (diffLine # ds) right =
     push_diffLines ds
       (if type diffLine = Delete \<or> type diffLine = Control then right
        else if type diffLine = Add then right @ [Some (DiffLine_text diffLine)]
        else right @ [Some (DiffLine_text diffLine)])"



subsection \<open>getModifiedContentFromDiffHunk\<close>

text \<open>
  \<^verbatim>\<open>originalContent.split(/\r?\n/)\<close>: the pieces between the leftmost matches of the
  separator, which is \<open>CR LF\<close> where a \<open>CR\<close> stands before the \<open>LF\<close> and \<open>LF\<close> alone
  otherwise. The accumulator is the piece being read.
\<close>

fun split_lines :: "string \<Rightarrow> string \<Rightarrow> string list" where
  "split_lines cur [] = [cur]"
| "split_lines cur [c] = (if c = LF then [cur, []] else [cur @ [c]])"
| "split_lines cur (c # d # cs) =
     (if c = CR \<and> d = LF then cur # split_lines [] cs
      else if c = LF then cur # split_lines [] (d # cs)
      else split_lines (cur @ [c]) (d # cs))"

definition split_newlines :: "string \<Rightarrow> string list" where
  "split_newlines originalContent = split_lines [] originalContent"

text \<open>\<^verbatim>\<open>left[i]\<close>, which is \<^verbatim>\<open>undefined\<close> out of range.\<close>

definition left_at :: "string list \<Rightarrow> int \<Rightarrow> string option" where
  "left_at left i = (if 0 \<le> i \<and> i < int (length left) then Some (left ! nat i) else None)"

text \<open>
  \<^verbatim>\<open>for (; j < bound; j++) right.push(left[j - 1])\<close>: the entries pushed. The loop after
  the last hunk runs while \<^verbatim>\<open>j <= left.length\<close>, that is with the bound
  \<open>left.length + 1\<close>.
\<close>

function copy_loop :: "string list \<Rightarrow> int \<Rightarrow> int \<Rightarrow> string option list" where
  "copy_loop left j bound =
     (if j < bound then left_at left (j - 1) # copy_loop left (j + 1) bound else [])"
  by pat_completeness auto
termination
  by (relation "measure (\<lambda>(left, j, bound). nat (bound - j))") auto

text \<open>The comparison \<^verbatim>\<open><\<close>, which is false when a side is \<^verbatim>\<open>NaN\<close>.\<close>

definition jsless :: "jsnum \<Rightarrow> jsnum \<Rightarrow> bool" where
  "jsless x y =
     (case (x, y) of
        (Num a, Num b) \<Rightarrow> a < b
      | (Num a, Infinity) \<Rightarrow> True
      | _ \<Rightarrow> False)"

text \<open>
  The copy loop from \<open>lastCommonLine + 1\<close> up to an integer bound. It does not run when
  a side is \<^verbatim>\<open>NaN\<close> or the start is \<^verbatim>\<open>Infinity\<close>. The model does not cover a bound
  that is infinite or beyond \<open>2 ^ 53\<close>, under which the counter of the program stops
  advancing and the loop does not end.
\<close>

definition copy_from :: "string list \<Rightarrow> jsnum \<Rightarrow> jsnum \<Rightarrow> string option list" where
  "copy_from left lastCommonLine bound =
     (case (jsadd lastCommonLine 1, bound) of
        (Num j, Num b) \<Rightarrow> copy_loop left j b
      | _ \<Rightarrow> [])"

text \<open>The loop over the hunks: the array \<^verbatim>\<open>right\<close> and \<^verbatim>\<open>lastCommonLine\<close> after it.\<close>

fun hunks_loop ::
  "string list \<Rightarrow> DiffHunk list \<Rightarrow> string option list \<times> jsnum \<Rightarrow> string option list \<times> jsnum"
where
  "hunks_loop left [] acc = acc"
| "hunks_loop left (h # hs) (right, lastCommonLine) =
     (let oriStartLine = hunk_oldLineNumber h;
          right1 = right @ copy_from left lastCommonLine oriStartLine;
          lastCommonLine1 = jsadd (jsadd oriStartLine (oldLength h)) (- 1);
          right2 = push_diffLines (diffLines h) right1
      in hunks_loop left hs (right2, lastCommonLine1))"

text \<open>The array \<^verbatim>\<open>right\<close> before it is joined.\<close>

definition right_lines :: "string list \<Rightarrow> DiffHunk list \<Rightarrow> string option list" where
  "right_lines left hs =
     (case hunks_loop left hs ([], Num 0) of
        (right, lastCommonLine) \<Rightarrow>
          (if jsless lastCommonLine (Num (int (length left)))
           then right @ copy_from left lastCommonLine (Num (int (length left) + 1))
           else right))"

text \<open>\<^verbatim>\<open>right.join('\n')\<close>: an entry \<^verbatim>\<open>undefined\<close> is joined as the empty string.\<close>

fun join :: "string option list \<Rightarrow> string" where
  "join [] = []"
| "join [x] = (case x of None \<Rightarrow> [] | Some s \<Rightarrow> s)"
| "join (x # y # ys) = (case x of None \<Rightarrow> [] | Some s \<Rightarrow> s) @ LF # join (y # ys)"

definition getModifiedContentFromDiffHunk :: "string \<Rightarrow> string \<Rightarrow> error + string" where
  "getModifiedContentFromDiffHunk originalContent patch =
     (let left = split_newlines originalContent
      in case parseDiffHunk patch of
           Inl e \<Rightarrow> Inl e
         | Inr hs \<Rightarrow> Inr (join (right_lines left hs)))"

subsection \<open>getGitChangeType\<close>

text \<open>
  Modelled from the spec: the enumeration \<^verbatim>\<open>GitChangeType\<close> is declared in
  \<^verbatim>\<open>./file\<close>, which is not among the sources; its five tags are those of the
  status-label table.
\<close>

datatype GitChangeType = MODIFY | ADD | DELETE | RENAME | UNKNOWN

definition getGitChangeType :: "string \<Rightarrow> GitChangeType" where
  "getGitChangeType status =
     (if status = ''removed'' then DELETE
      else if status = ''added'' then ADD
      else if status = ''renamed'' then RENAME
      else if status = ''modified'' then MODIFY
      else UNKNOWN)"

subsection \<open>Notions used in the statements\<close>








text \<open>
  The pairs of position and raw text of all lines of a hunk sequence, the scanned lines
  that leave a \<^verbatim>\<open>DiffLine\<close> behind, the position given to the next header, and the
  invariant of the parser's loop.
\<close>

definition stamps :: "DiffHunk list \<Rightarrow> (int \<times> string) list" where
  "stamps hs = map (\<lambda>d. (positionInHunk d, raw d)) (concat (map diffLines hs))"

definition kept :: "string \<Rightarrow> bool" where
  "kept line = (DIFF_HUNK_HEADER_test line \<or> getDiffChangeType line \<noteq> Control)"

definition start_position :: "parser_state \<Rightarrow> int" where
  "start_position s = (if cur_positionInHunk s = -1 then 0 else cur_positionInHunk s)"

definition headed :: "DiffHunk \<Rightarrow> bool" where
  "headed h = (case diffLines h of [] \<Rightarrow> False
     | d # ds \<Rightarrow> type d = Control \<and> positionInHunk d = hunk_positionInHunk h)"

definition parser_inv :: "parser_state \<Rightarrow> bool" where
  "parser_inv s =
     (list_all headed (final_yield s) \<and>
      (case diffHunk s of
         None \<Rightarrow> cur_positionInHunk s = -1 \<and> yielded s = []
       | Some h \<Rightarrow> 0 \<le> cur_positionInHunk s \<and> oldLine s \<noteq> NaN))"

section \<open>Properties\<close>

subsection \<open>The line scanner\<close>

declare LineReader_from.simps [simp del]

lemma LineReader_from_end: "\<not> index < length str \<Longrightarrow> LineReader_from str index = []"
  by (subst LineReader_from.simps) simp

lemma LineReader_from_last:
  "index < length str \<Longrightarrow> indexOf str LF index = None \<Longrightarrow>
   LineReader_from str index = [substr str index (int (length str) - int index)]"
  by (subst LineReader_from.simps) simp

lemma LineReader_from_line:
  "index < length str \<Longrightarrow> indexOf str LF index = Some i \<Longrightarrow>
   LineReader_from str index =
     substr str index
       (if i > 0 \<and> charAt str (int i - 1) = Some CR then int i - int index - 1
        else int i - int index)
     # LineReader_from str (i + 1)"
  by (subst LineReader_from.simps) (simp add: Let_def)

lemma indexOf_append_shift:
  "indexOf (pre @ t) c (length pre + k) = map_option (\<lambda>i. length pre + i) (indexOf t c k)"
  by (simp add: indexOf_def option.map_comp comp_def add.assoc)

lemma substr_append_shift:
  "substr (pre @ t) (length pre + k) n = substr t k n"
  by (simp add: substr_def)

lemma charAt_append_shift:
  "0 < i \<Longrightarrow> charAt (pre @ t) (int (length pre + i) - 1) = charAt t (int i - 1)"
  by (auto simp: charAt_def nth_append nat_diff_distrib' nat_add_distrib)

lemma LineReader_from_shift:
  "LineReader_from (pre @ t) (length pre + k) = LineReader_from t k"
proof (induction t k rule: LineReader_from.induct)
  case (1 str index)
  show ?case
  proof (cases "index < length str")
    case False
    then show ?thesis by (simp add: LineReader_from_end)
  next
    case True
    then have lt': "length pre + index < length (pre @ str)" by simp
    show ?thesis
    proof (cases "indexOf str LF index")
      case None
      then have "indexOf (pre @ str) LF (length pre + index) = None"
        by (simp add: indexOf_append_shift)
      from LineReader_from_last [OF lt' this] LineReader_from_last [OF True None]
      show ?thesis by (simp add: substr_append_shift)
    next
      case (Some i)
      from indexOf_Some [OF Some] have i: "index \<le> i" "i < length str" by auto
      have Some': "indexOf (pre @ str) LF (length pre + index) = Some (length pre + i)"
        using Some by (simp add: indexOf_append_shift)
      have IH: "LineReader_from (pre @ str) (length pre + (i + 1)) = LineReader_from str (i + 1)"
        using "1.IH" [OF True Some refl refl] .
      have sub: "substr (pre @ str) (length pre + index)
           (if length pre + i > 0 \<and> charAt (pre @ str) (int (length pre + i) - 1) = Some CR
            then int (length pre + i) - int (length pre + index) - 1
            else int (length pre + i) - int (length pre + index))
         = substr str index
           (if i > 0 \<and> charAt str (int i - 1) = Some CR then int i - int index - 1
            else int i - int index)"
      proof (cases "i > 0")
        case True
        then show ?thesis
          using charAt_append_shift [OF True, of pre str]
          by (simp add: substr_append_shift)
      next
        case False
        with i have "i = 0" "index = 0" by auto
        then show ?thesis by (simp add: substr_def)
      qed
      have "LineReader_from (pre @ str) (length pre + index)
          = substr str index
           (if i > 0 \<and> charAt str (int i - 1) = Some CR then int i - int index - 1
            else int i - int index) # LineReader_from (pre @ str) (length pre + i + 1)"
        unfolding LineReader_from_line [OF lt' Some'] sub ..
      also have "\<dots> = LineReader_from str index"
        unfolding LineReader_from_line [OF True Some] using IH by (simp add: add.assoc)
      finally show ?thesis .
    qed
  qed
qed

lemma LineReader_Nil: "LineReader [] = []"
  by (simp add: LineReader_def LineReader_from_end)

lemma indexOf_0_None: "c \<notin> set l \<Longrightarrow> indexOf l c 0 = None"
  by (simp add: indexOf_def first_index_None)

lemma indexOf_0_hit: "c \<notin> set l \<Longrightarrow> indexOf (l @ c # rest) c 0 = Some (length l)"
  by (simp add: indexOf_def first_index_append_hit)

lemma LineReader_partial: "LF \<notin> set l \<Longrightarrow> l \<noteq> [] \<Longrightarrow> LineReader l = [l]"
  by (simp add: LineReader_def LineReader_from_last indexOf_0_None substr_def)

lemma LineReader_after:
  "LineReader_from (l @ LF # rest) (length l + 1) = LineReader rest"
  using LineReader_from_shift [of "l @ [LF]" rest 0] by (simp add: LineReader_def)

lemma LineReader_LF:
  assumes "LF \<notin> set l" and "l = [] \<or> last l \<noteq> CR"
  shows "LineReader (l @ LF # rest) = l # LineReader rest"
proof -
  have ncr: "\<not> (length l > 0 \<and> charAt (l @ LF # rest) (int (length l) - 1) = Some CR)"
    using assms(2) by (auto simp: charAt_def nth_append last_conv_nth nat_diff_distrib')
  have lt: "0 < length (l @ LF # rest)" by simp
  have "LineReader_from (l @ LF # rest) 0
      = substr (l @ LF # rest) 0 (int (length l) - int 0)
        # LineReader_from (l @ LF # rest) (length l + 1)"
    unfolding LineReader_from_line [OF lt indexOf_0_hit [OF assms(1)]] if_not_P [OF ncr] ..
  also have "substr (l @ LF # rest) 0 (int (length l) - int 0) = l"
    by (simp add: substr_def)
  finally show ?thesis
    by (simp only: LineReader_def LineReader_after)
qed

lemma LineReader_CRLF:
  assumes "LF \<notin> set l"
  shows "LineReader (l @ CR # LF # rest) = l # LineReader rest"
proof -
  let ?t = "(l @ [CR]) @ LF # rest"
  have nl: "LF \<notin> set (l @ [CR])" using assms by simp
  have cr: "length (l @ [CR]) > 0 \<and> charAt ?t (int (length (l @ [CR])) - 1) = Some CR"
    by (simp add: charAt_def nth_append)
  have lt: "0 < length ?t" by simp
  have "LineReader_from ?t 0
      = substr ?t 0 (int (length (l @ [CR])) - int 0 - 1)
        # LineReader_from ?t (length (l @ [CR]) + 1)"
    unfolding LineReader_from_line [OF lt indexOf_0_hit [OF nl]] if_P [OF cr] ..
  also have "substr ?t 0 (int (length (l @ [CR])) - int 0 - 1) = l"
    by (simp add: substr_def)
  finally have "LineReader_from ?t 0 = l # LineReader rest"
    by (simp only: LineReader_after)
  then show ?thesis
    by (simp add: LineReader_def)
qed

text \<open>
  C9: the line scanner yields the lines of the text in order, without their terminators
  \<open>LF\<close> and \<open>CR LF\<close>. The empty text has no lines; a text without \<open>LF\<close> that is not
  empty is its own single line (the last partial line); a line \<open>l\<close> ended by \<open>CR LF\<close>,
  or by \<open>LF\<close> alone when \<open>l\<close> does not end in \<open>CR\<close>, is yielded as \<open>l\<close> and followed by
  the lines of the rest; and a terminator at the very end of the text is followed by no
  empty line. The scanner is a total function: it returns a list for every text.
\<close>

theorem LineReader_lines:
  "LineReader [] = [] \<and>
   (LF \<notin> set l \<longrightarrow>
      (l \<noteq> [] \<longrightarrow> LineReader l = [l]) \<and>
      LineReader (l @ CR # LF # rest) = l # LineReader rest \<and>
      (l = [] \<or> last l \<noteq> CR \<longrightarrow> LineReader (l @ LF # rest) = l # LineReader rest) \<and>
      LineReader (l @ [CR, LF]) = [l] \<and>
      (l = [] \<or> last l \<noteq> CR \<longrightarrow> LineReader (l @ [LF]) = [l]))"
proof -
  have "LineReader (l @ [CR, LF]) = [l]" if "LF \<notin> set l"
    using LineReader_CRLF [OF that, of "[]"] by (simp add: LineReader_Nil)
  moreover have "LineReader (l @ [LF]) = [l]" if "LF \<notin> set l" "l = [] \<or> last l \<noteq> CR"
    using LineReader_LF [OF that, of "[]"] by (simp add: LineReader_Nil)
  ultimately show ?thesis
    using LineReader_Nil LineReader_partial [of l] LineReader_CRLF [of l rest]
      LineReader_LF [of l rest]
    by blast
qed

theorem LineReader_lines_witness:
  "LF \<notin> set ''ab'' \<and> ''ab'' \<noteq> [] \<and> last ''ab'' \<noteq> CR \<and>
   LineReader ''ab'' = [''ab''] \<and>
   LineReader (''ab'' @ CR # LF # ''c'') = [''ab'', ''c''] \<and>
   LineReader (''ab'' @ LF # ''c'') = [''ab'', ''c''] \<and>
   LineReader (''ab'' @ [CR, LF]) = [''ab''] \<and>
   LineReader (''ab'' @ [LF]) = [''ab'']"
proof -
  have c: "LineReader ''c'' = [''c'']" by code_simp
  show ?thesis
    using LineReader_lines [of "''ab''" "''c''"] c by simp
qed

subsection \<open>Rounding to a double\<close>

declare exponent.simps [simp del]

text \<open>The same equations with the powers written out, for evaluation.\<close>

lemma exponent_code [code]:
  "exponent n = (if n < 9007199254740992 then 0 else Suc (exponent (n div 2)))"
  by (subst exponent.simps) simp

lemma exponent_le_iff: "exponent n \<le> k \<longleftrightarrow> n < 2 ^ (53 + k)"
proof (induction k arbitrary: n)
  case 0
  show ?case by (subst exponent.simps) simp
next
  case (Suc k)
  show ?case
  proof (cases "n < 2 ^ 53")
    case True
    have "(2::int) ^ 53 \<le> 2 ^ (53 + Suc k)" by (rule power_increasing) simp_all
    with True have "n < 2 ^ (53 + Suc k)" by linarith
    moreover have "exponent n = 0" using True by (subst exponent.simps) simp
    ultimately show ?thesis by simp
  next
    case False
    then have "exponent n = Suc (exponent (n div 2))" by (subst exponent.simps) simp
    moreover have "n div 2 < 2 ^ (53 + k) \<longleftrightarrow> n < 2 ^ (53 + Suc k)"
    proof -
      have "(2::int) ^ (53 + Suc k) = 2 * 2 ^ (53 + k)" by (simp add: power_add)
      then show ?thesis by presburger
    qed
    ultimately show ?thesis using Suc.IH [of "n div 2"] by simp
  qed
qed

lemma to_double_code [code]:
  "to_double x =
     (let r = (if x < 0 then - round_double (- x) else round_double x)
      in if 971 < exponent r then Infinity else Num r)"
proof -
  have "971 < exponent r \<longleftrightarrow> 2 ^ 1024 \<le> r" for r
    using exponent_le_iff [of r 971] by auto
  then show ?thesis by (simp add: to_double_def)
qed

lemma exponent_small: "n < 2 ^ 53 \<Longrightarrow> exponent n = 0"
  by (subst exponent.simps) simp

lemma exponent_pow_le: "1 \<le> n \<Longrightarrow> 2 ^ exponent n \<le> n"
proof (induction n rule: exponent.induct)
  case (1 n)
  show ?case
  proof (cases "n < 2 ^ 53")
    case True
    with "1.prems" show ?thesis by (simp add: exponent_small)
  next
    case False
    then have "1 \<le> n div 2" by simp
    with "1.IH" False have "2 ^ exponent (n div 2) \<le> n div 2" by simp
    then have "2 * 2 ^ exponent (n div 2) \<le> n" by simp
    moreover have "exponent n = Suc (exponent (n div 2))"
      using False by (subst exponent.simps) simp
    ultimately show ?thesis by simp
  qed
qed

lemma round_double_small: "n < 2 ^ 53 \<Longrightarrow> round_double n = n"
  by (simp add: round_double_def exponent_small)

lemma round_double_pow53: "round_double (2 ^ 53) = 2 ^ 53"
proof -
  have "exponent (2 ^ 53) = Suc (exponent (2 ^ 52))"
    by (subst exponent.simps) simp
  then have "exponent (2 ^ 53) = 1" by (simp add: exponent_small)
  then show ?thesis by (simp add: round_double_def)
qed

lemma round_double_exact: "n \<le> 2 ^ 53 \<Longrightarrow> round_double n = n"
  using round_double_small [of n] round_double_pow53 by (cases "n = 2 ^ 53") auto

lemma round_double_pos: "1 \<le> n \<Longrightarrow> 1 \<le> round_double n"
proof -
  assume n: "1 \<le> n"
  let ?e = "exponent n"
  have p: "(0::int) < 2 ^ ?e" by simp
  have p1: "(1::int) \<le> 2 ^ ?e" by simp
  from zdiv_mono1 [OF exponent_pow_le [OF n] p] have q: "1 \<le> n div 2 ^ ?e"
    by simp
  have q0: "0 \<le> n div 2 ^ ?e" "0 \<le> n div 2 ^ ?e + 1" "1 \<le> n div 2 ^ ?e + 1"
    using q by simp_all
  have A: "1 \<le> n div 2 ^ ?e * 2 ^ ?e"
    using mult_mono [OF q p1 q0(1)] by simp
  have B: "1 \<le> (n div 2 ^ ?e + 1) * 2 ^ ?e"
    using mult_mono [OF q0(3) p1 q0(2)] by simp
  show ?thesis
    unfolding round_double_def Let_def using A B by presburger
qed

lemma round_double_nonneg: "0 \<le> n \<Longrightarrow> 0 \<le> round_double n"
  using round_double_pos [of n] round_double_small [of 0] by (cases "n = 0") auto

lemma to_double_exact: "\<bar>x\<bar> \<le> 2 ^ 53 \<Longrightarrow> to_double x = Num x"
proof -
  assume a: "\<bar>x\<bar> \<le> 2 ^ 53"
  have "(2::int) ^ 53 < 2 ^ 1024" by simp
  with a have b: "x < 2 ^ 1024" "- x < 2 ^ 1024" by linarith+
  show ?thesis
  proof (cases "x < 0")
    case True
    with a have "round_double (- x) = - x" by (intro round_double_exact) simp
    with True b show ?thesis by (simp add: to_double_def)
  next
    case False
    with a have "round_double x = x" by (intro round_double_exact) simp
    with False b show ?thesis by (simp add: to_double_def)
  qed
qed

lemma to_double_nonneg: "0 \<le> x \<Longrightarrow> to_double x = Infinity \<or> (\<exists>r. to_double x = Num r \<and> 0 \<le> r)"
  using round_double_nonneg [of x] by (auto simp: to_double_def Let_def)

lemma to_double_pos: "1 \<le> x \<Longrightarrow> to_double x = Infinity \<or> (\<exists>r. to_double x = Num r \<and> 1 \<le> r)"
  using round_double_pos [of x] by (auto simp: to_double_def Let_def)

lemma to_double_not_NaN: "to_double x \<noteq> NaN"
  by (simp add: to_double_def Let_def)

subsection \<open>The header pattern\<close>

lemma drop_prefix_Some: "drop_prefix p s = Some t \<longleftrightarrow> s = p @ t"
  by (auto simp: drop_prefix_def) (metis append_take_drop_id)

lemma drop_prefix_append [simp]: "drop_prefix p (p @ t) = Some t"
  by (simp add: drop_prefix_Some)

lemma not_digit_comma [simp]: "\<not> isDigit CHR '',''"
  by (simp add: isDigit_def)

lemma not_digit_blank [simp]: "\<not> isDigit CHR '' ''"
  by (simp add: isDigit_def)



lemma digits_takeWhile: "list_all isDigit (takeWhile isDigit t)"
  by (induction t) auto















lemma exec_iff:
  "DIFF_HUNK_HEADER_exec line \<noteq> None \<longleftrightarrow>
   (\<exists>pre s. line = pre @ s \<and> match_here s \<noteq> None)"
proof (induction line)
  case Nil
  then show ?case by simp
next
  case (Cons c cs)
  show ?case
  proof (cases "match_here (c # cs)")
    case (Some m)
    then have "\<exists>pre s. c # cs = pre @ s \<and> match_here s \<noteq> None"
      by (intro exI [of _ "[]"] exI [of _ "c # cs"]) simp
    with Some show ?thesis by simp
  next
    case None
    have "(\<exists>pre s. c # cs = pre @ s \<and> match_here s \<noteq> None) \<longleftrightarrow>
          (\<exists>pre s. cs = pre @ s \<and> match_here s \<noteq> None)" (is "?L \<longleftrightarrow> ?R")
    proof
      assume ?L
      then obtain pre s where ps: "c # cs = pre @ s" "match_here s \<noteq> None" by blast
      with None have "pre \<noteq> []" by (cases pre) auto
      then obtain pre' where "pre = c # pre'" "cs = pre' @ s"
        using ps(1) by (cases pre) auto
      with ps(2) show ?R by blast
    next
      assume ?R
      then obtain pre s where "cs = pre @ s" "match_here s \<noteq> None" by blast
      then have "c # cs = (c # pre) @ s \<and> match_here s \<noteq> None" by simp
      then show ?L by blast
    qed
    with None Cons.IH show ?thesis by simp
  qed
qed

lemma test_iff:
  "DIFF_HUNK_HEADER_test line \<longleftrightarrow> (\<exists>pre s. line = pre @ s \<and> match_here s \<noteq> None)"
proof
  assume "DIFF_HUNK_HEADER_test line"
  then obtain i where "match_here (drop i line) \<noteq> None"
    unfolding DIFF_HUNK_HEADER_test_def list_ex_iff by blast
  moreover have "line = take i line @ drop i line" by simp
  ultimately show "\<exists>pre s. line = pre @ s \<and> match_here s \<noteq> None" by blast
next
  assume "\<exists>pre s. line = pre @ s \<and> match_here s \<noteq> None"
  then obtain pre s where ps: "line = pre @ s" "match_here s \<noteq> None" by blast
  then have "length pre \<in> set [0 ..< Suc (length line)]" "match_here (drop (length pre) line) \<noteq> None"
    by auto
  then show "DIFF_HUNK_HEADER_test line"
    unfolding DIFF_HUNK_HEADER_test_def list_ex_iff by blast
qed

lemma test_exec: "DIFF_HUNK_HEADER_test line \<longleftrightarrow> DIFF_HUNK_HEADER_exec line \<noteq> None"
  by (simp only: test_iff exec_iff)








lemma Number_digits:
  "Number (Some (takeWhile isDigit t)) = to_double (decimal (takeWhile isDigit t))"
  by (simp add: Number_def digits_takeWhile)










lemma loop_body_Inr: "\<exists>s'. loop_body line s = Inr s'"
proof (cases "DIFF_HUNK_HEADER_test line")
  case True
  then obtain m where "DIFF_HUNK_HEADER_exec line = Some m"
    by (auto simp: test_exec)
  with True show ?thesis
    by (simp add: loop_body_def header_branch_def Let_def)
next
  case False
  then show ?thesis
    by (simp add: loop_body_def split: option.splits)
qed

lemma parse_loop_append:
  "parse_loop (xs @ ys) s =
     (case parse_loop xs s of Inl e \<Rightarrow> Inl e | Inr s' \<Rightarrow> parse_loop ys s')"
  by (induction xs arbitrary: s) (auto split: sum.splits)

lemma parse_loop_Inr: "\<exists>s'. parse_loop ls s = Inr s'"
proof (induction ls arbitrary: s)
  case Nil
  then show ?case by simp
next
  case (Cons l ls)
  obtain s1 where "loop_body l s = Inr s1" using loop_body_Inr by blast
  with Cons [of s1] show ?case by simp
qed

lemma Number_group1:
  assumes "DIFF_HUNK_HEADER_exec line = Some m"
  shows "Number (group1 m) \<noteq> NaN"
proof -
  have "\<exists>t. group1 m = Some (takeWhile isDigit t)" if "match_here s = Some m" for s
    using that by (auto simp: match_here_def split: option.splits if_splits prod.splits)
  moreover have "\<exists>s. match_here s = Some m"
    using assms
  proof (induction line)
    case Nil
    then show ?case by auto
  next
    case (Cons c cs)
    then show ?case by (cases "match_here (c # cs)") auto
  qed
  ultimately obtain t where "group1 m = Some (takeWhile isDigit t)" by blast
  then show ?thesis by (simp add: Number_digits to_double_not_NaN)
qed

lemma header_step:
  assumes "DIFF_HUNK_HEADER_test line"
  shows "\<exists>m hk s'. DIFF_HUNK_HEADER_exec line = Some m \<and> loop_body line s = Inr s' \<and>
     diffHunk s' = Some hk \<and> yielded s' = final_yield s \<and>
     cur_positionInHunk s' = start_position s + 1 \<and>
     oldLine s' = Number (group1 m) \<and> newLine s' = Number (group5 m) \<and>
     hunk_oldLineNumber hk = Number (group1 m) \<and> oldLength hk = or0 (Number (group3 m)) \<and>
     hunk_newLineNumber hk = Number (group5 m) \<and> newLength hk = or0 (Number (group7 m)) \<and>
     hunk_positionInHunk hk = start_position s \<and>
     diffLines hk = [\<lparr>type = Control, oldLineNumber = Num (-1), newLineNumber = Num (-1),
        positionInHunk = start_position s, raw = line, endwithLineBreak = True\<rparr>]"
proof -
  from assms obtain m where m: "DIFF_HUNK_HEADER_exec line = Some m"
    by (auto simp: test_exec)
  with assms show ?thesis
    by (cases "diffHunk s")
       (simp_all add: loop_body_def header_branch_def Let_def advance_position_def
          final_yield_def start_position_def)
qed

lemma idle_step:
  "\<not> DIFF_HUNK_HEADER_test line \<Longrightarrow> diffHunk s = None \<Longrightarrow>
   loop_body line s = Inr (advance_position s)"
  by (simp add: loop_body_def)

lemma open_step:
  "\<not> DIFF_HUNK_HEADER_test line \<Longrightarrow> diffHunk s = Some h \<Longrightarrow>
   loop_body line s = Inr (advance_position (content_branch line h s))"
  by (simp add: loop_body_def)


declare countCarriageReturns_loop.simps [simp del]

lemma indexOf_None: "indexOf str c from = None \<longleftrightarrow> c \<notin> set (drop from str)"
  by (simp add: indexOf_def first_index_None)

lemma countCarriageReturns_loop_count:
  "countCarriageReturns_loop str index count
     = count + length (filter (\<lambda>c. c = CR) (drop index str))"
proof (induction str index count rule: countCarriageReturns_loop.induct)
  case (1 str index count)
  show ?case
  proof (cases "indexOf str CR index")
    case None
    then have "filter (\<lambda>c. c = CR) (drop index str) = []"
      by (auto simp: indexOf_None filter_empty_conv)
    with None show ?thesis
      by (subst countCarriageReturns_loop.simps) simp
  next
    case (Some i)
    then obtain k where k: "first_index (drop index str) CR = Some k" "i = index + k"
      by (auto simp: indexOf_def)
    let ?D = "drop index str"
    from first_index_Some [OF k(1)]
    have kl: "k < length ?D" and hit: "?D ! k = CR" and miss: "CR \<notin> set (take k ?D)"
      by auto
    have "?D = take k ?D @ ?D ! k # drop (Suc k) ?D"
      using kl by (rule id_take_nth_drop)
    then have "filter (\<lambda>c. c = CR) ?D
        = filter (\<lambda>c. c = CR) (take k ?D) @ filter (\<lambda>c. c = CR) (?D ! k # drop (Suc k) ?D)"
      by (metis filter_append)
    moreover have "filter (\<lambda>c. c = CR) (take k ?D) = []"
      using miss by (auto simp: filter_empty_conv)
    moreover have "drop (Suc k) ?D = drop (i + 1) str"
      using k(2) by (simp add: add.commute)
    ultimately have "length (filter (\<lambda>c. c = CR) ?D)
        = 1 + length (filter (\<lambda>c. c = CR) (drop (i + 1) str))"
      using hit by simp
    with "1.IH" [OF Some] Some show ?thesis
      by (subst countCarriageReturns_loop.simps) simp
  qed
qed

lemma countCarriageReturns_count:
  "countCarriageReturns line = length (filter (\<lambda>c. c = CR) line)"
  by (simp add: countCarriageReturns_def countCarriageReturns_loop_count)

lemma getDiffChangeType_cases:
  "getDiffChangeType line =
     (case line of [] \<Rightarrow> Control
      | c # cs \<Rightarrow> if c = CHR '' '' then Context else if c = CHR ''+'' then Add
          else if c = CHR ''-'' then Delete else Control)"
  by (cases line) (simp_all add: getDiffChangeType_def charAt_def)

lemma update_last: "xs \<noteq> [] \<Longrightarrow> xs[length xs - Suc 0 := y] = butlast xs @ [y]"
  by (induction xs rule: rev_induct) (simp_all add: list_update_append)

lemma headed_append: "headed h \<Longrightarrow> headed (h\<lparr>diffLines := diffLines h @ ds\<rparr>)"
  by (auto simp: headed_def split: list.splits)

lemma headed_flag:
  assumes "headed h"
  shows "headed (h\<lparr>diffLines := butlast (diffLines h) @ [(last (diffLines h))\<lparr>endwithLineBreak := False\<rparr>]\<rparr>)"
proof -
  from assms obtain d ds where ds: "diffLines h = d # ds"
    "type d = Control" "positionInHunk d = hunk_positionInHunk h"
    by (auto simp: headed_def split: list.splits)
  show ?thesis
    using ds by (cases ds rule: rev_cases) (simp_all add: headed_def butlast_append)
qed

lemma parser_inv_open:
  "parser_inv s \<Longrightarrow> diffHunk s = Some h \<Longrightarrow>
   headed h \<and> diffLines h \<noteq> [] \<and> 0 \<le> cur_positionInHunk s \<and> oldLine s \<noteq> NaN"
  by (auto simp: parser_inv_def final_yield_def headed_def split: list.splits)

lemma control_step:
  assumes "parser_inv s" "diffHunk s = Some h" "\<not> DIFF_HUNK_HEADER_test line"
    "getDiffChangeType line = Control"
  shows "loop_body line s =
     Inr (s\<lparr>diffHunk := Some (h\<lparr>diffLines :=
            butlast (diffLines h) @ [(last (diffLines h))\<lparr>endwithLineBreak := False\<rparr>]\<rparr>),
          cur_positionInHunk := cur_positionInHunk s + 1\<rparr>)"
proof -
  from parser_inv_open [OF assms(1,2)] have ne: "diffLines h \<noteq> []" and p: "0 \<le> cur_positionInHunk s"
    by auto
  from ne have "diffLines h ! (length (diffLines h) - 1) = last (diffLines h)"
    by (simp add: last_conv_nth)
  with ne p assms show ?thesis
    by (simp add: open_step content_branch_def advance_position_def update_last)
qed

lemma content_step:
  assumes "parser_inv s" "diffHunk s = Some h" "\<not> DIFF_HUNK_HEADER_test line"
    "getDiffChangeType line = ty" "ty \<noteq> Control"
  shows "loop_body line s =
     Inr (s\<lparr>diffHunk := Some (h\<lparr>diffLines := diffLines h @
            [\<lparr>type = ty,
              oldLineNumber = (if ty = Add then Num (-1) else oldLine s),
              newLineNumber = (if ty = Delete then Num (-1) else newLine s),
              positionInHunk = cur_positionInHunk s, raw = line,
              endwithLineBreak = True\<rparr>]\<rparr>),
          oldLine := (if ty = Add then oldLine s
                      else jsadd (oldLine s) (1 + int (length (filter (\<lambda>c. c = CR) line)))),
          newLine := (if ty = Delete then newLine s
                      else jsadd (newLine s) (1 + int (length (filter (\<lambda>c. c = CR) line)))),
          cur_positionInHunk := cur_positionInHunk s + 1\<rparr>)"
proof -
  from parser_inv_open [OF assms(1,2)] have p: "0 \<le> cur_positionInHunk s"
    by auto
  with assms show ?thesis
    by (cases ty)
       (simp_all add: open_step content_branch_def advance_position_def Let_def
          countCarriageReturns_count)
qed


lemma parser_inv_initial: "parser_inv initial_state"
  by (simp add: parser_inv_def initial_state_def final_yield_def)

lemma final_yield_open: "diffHunk s = Some h \<Longrightarrow> final_yield s = yielded s @ [h]"
  by (simp add: final_yield_def)

lemma start_position_open:
  "parser_inv s \<Longrightarrow> diffHunk s = Some h \<Longrightarrow> start_position s = cur_positionInHunk s"
  by (auto simp: parser_inv_def start_position_def)

lemma start_position_nonneg: "parser_inv s \<Longrightarrow> 0 \<le> start_position s"
  by (auto simp: parser_inv_def start_position_def split: option.splits)

lemma idle_unchanged:
  "parser_inv s \<Longrightarrow> diffHunk s = None \<Longrightarrow> \<not> DIFF_HUNK_HEADER_test line \<Longrightarrow>
   loop_body line s = Inr s"
  by (simp add: idle_step advance_position_def parser_inv_def)

lemma stamps_snoc:
  "stamps (hs @ [h]) = stamps hs @ map (\<lambda>d. (positionInHunk d, raw d)) (diffLines h)"
  by (simp add: stamps_def)

lemma step_facts:
  assumes inv: "parser_inv s" and step: "loop_body line s = Inr s'"
    and act: "DIFF_HUNK_HEADER_test line \<or> diffHunk s \<noteq> None"
  shows "parser_inv s' \<and> diffHunk s' \<noteq> None \<and>
     cur_positionInHunk s' = start_position s + 1 \<and>
     stamps (final_yield s') =
       stamps (final_yield s) @ (if kept line then [(start_position s, line)] else [])"
proof (cases "DIFF_HUNK_HEADER_test line")
  case True
  from header_step [OF True, of s] step obtain m hk where
    hk: "DIFF_HUNK_HEADER_exec line = Some m" "diffHunk s' = Some hk"
      "yielded s' = final_yield s" "cur_positionInHunk s' = start_position s + 1"
      "oldLine s' = Number (group1 m)" "hunk_positionInHunk hk = start_position s"
      "diffLines hk = [\<lparr>type = Control, oldLineNumber = Num (-1), newLineNumber = Num (-1),
        positionInHunk = start_position s, raw = line, endwithLineBreak = True\<rparr>]"
    by auto
  have "headed hk" using hk(6,7) by (simp add: headed_def)
  moreover have "list_all headed (final_yield s)" using inv by (simp add: parser_inv_def)
  moreover have "oldLine s' \<noteq> NaN" using Number_group1 [OF hk(1)] hk(5) by simp
  ultimately have "parser_inv s'"
    using hk(2,3,4) start_position_nonneg [OF inv]
    by (simp add: parser_inv_def final_yield_open)
  moreover have "stamps (final_yield s') = stamps (final_yield s) @ [(start_position s, line)]"
    using hk(2,3,7) by (simp add: final_yield_open stamps_snoc)
  ultimately show ?thesis using hk(2,4) True by (simp add: kept_def)
next
  case False
  with act obtain h where h: "diffHunk s = Some h" by auto
  note op = parser_inv_open [OF inv h]
  have sp: "start_position s = cur_positionInHunk s" by (rule start_position_open [OF inv h])
  have ys: "list_all headed (yielded s)" using inv h by (simp add: parser_inv_def final_yield_open)
  show ?thesis
  proof (cases "getDiffChangeType line = Control")
    case True
    let ?h' = "h\<lparr>diffLines :=
            butlast (diffLines h) @ [(last (diffLines h))\<lparr>endwithLineBreak := False\<rparr>]\<rparr>"
    from control_step [OF inv h False True] step
    have s': "s' = s\<lparr>diffHunk := Some ?h', cur_positionInHunk := cur_positionInHunk s + 1\<rparr>"
      by simp
    have "headed ?h'" using op headed_flag by blast
    then have "parser_inv s'"
      using s' ys op by (simp add: parser_inv_def final_yield_def)
    moreover have "map (\<lambda>d. (positionInHunk d, raw d)) (diffLines ?h')
        = map (\<lambda>d. (positionInHunk d, raw d)) (diffLines h)"
    proof -
      have "diffLines h = butlast (diffLines h) @ [last (diffLines h)]" using op by simp
      then have "map (\<lambda>d. (positionInHunk d, raw d)) (diffLines h)
          = map (\<lambda>d. (positionInHunk d, raw d)) (butlast (diffLines h))
            @ [(positionInHunk (last (diffLines h)), raw (last (diffLines h)))]"
        by (metis (no_types, lifting) list.simps(8,9) map_append)
      then show ?thesis by simp
    qed
    then have "stamps (final_yield s') = stamps (final_yield s)"
      using s' h by (simp add: final_yield_def stamps_snoc)
    ultimately show ?thesis using s' sp True False by (simp add: kept_def)
  next
    case nc: False
    let ?d = "\<lparr>type = getDiffChangeType line,
              oldLineNumber = (if getDiffChangeType line = Add then Num (-1) else oldLine s),
              newLineNumber = (if getDiffChangeType line = Delete then Num (-1) else newLine s),
              positionInHunk = cur_positionInHunk s, raw = line,
              endwithLineBreak = True\<rparr>"
    from content_step [OF inv h False refl nc] step
    have s': "diffHunk s' = Some (h\<lparr>diffLines := diffLines h @ [?d]\<rparr>)"
      "yielded s' = yielded s" "cur_positionInHunk s' = cur_positionInHunk s + 1"
      "oldLine s' = (if getDiffChangeType line = Add then oldLine s
                      else jsadd (oldLine s) (1 + int (length (filter (\<lambda>c. c = CR) line))))"
      by auto
    from op have "oldLine s \<noteq> NaN" by blast
    then have "oldLine s' \<noteq> NaN"
      using s'(4) by (cases "oldLine s") (simp_all add: jsadd_def to_double_not_NaN)
    moreover have "headed (h\<lparr>diffLines := diffLines h @ [?d]\<rparr>)"
      using op headed_append by blast
    ultimately have "parser_inv s'"
      using s'(1,2,3) ys op by (simp add: parser_inv_def final_yield_def)
    moreover have "stamps (final_yield s') = stamps (final_yield s) @ [(cur_positionInHunk s, line)]"
      using s'(1,2) h by (simp add: final_yield_def stamps_snoc)
    ultimately show ?thesis using s'(1,3) sp nc by (simp add: kept_def)
  qed
qed

lemma parser_inv_step: "parser_inv s \<Longrightarrow> loop_body line s = Inr s' \<Longrightarrow> parser_inv s'"
  using step_facts [of s line s'] idle_unchanged [of s line] by (cases "diffHunk s") auto

lemma parser_inv_run: "parser_inv s \<Longrightarrow> parse_loop ls s = Inr s' \<Longrightarrow> parser_inv s'"
proof (induction ls arbitrary: s)
  case Nil
  then show ?case by simp
next
  case (Cons l ls)
  from loop_body_Inr obtain s1 where s1: "loop_body l s = Inr s1" by blast
  with Cons.prems(2) have "parse_loop ls s1 = Inr s'" by simp
  with Cons.IH [OF parser_inv_step [OF Cons.prems(1) s1]] show ?case .
qed

lemma reached_inv: "parse_loop ls initial_state = Inr s \<Longrightarrow> parser_inv s"
  by (rule parser_inv_run [OF parser_inv_initial])

lemma open_run:
  assumes "parser_inv s" "diffHunk s \<noteq> None" "parse_loop ls s = Inr s'"
  shows "diffHunk s' \<noteq> None \<and>
     cur_positionInHunk s' = cur_positionInHunk s + int (length ls) \<and>
     stamps (final_yield s') =
       stamps (final_yield s) @
       filter (\<lambda>(i, l). kept l) (zip (map (\<lambda>k. cur_positionInHunk s + int k) [0 ..< length ls]) ls)"
  using assms
proof (induction ls arbitrary: s)
  case Nil
  then show ?case by simp
next
  case (Cons l ls)
  from loop_body_Inr obtain s1 where s1: "loop_body l s = Inr s1" by blast
  from Cons.prems(2) obtain h where h: "diffHunk s = Some h" by auto
  have sp: "start_position s = cur_positionInHunk s"
    by (rule start_position_open [OF Cons.prems(1) h])
  from step_facts [OF Cons.prems(1) s1] Cons.prems(2) sp
  have f: "parser_inv s1" "diffHunk s1 \<noteq> None" "cur_positionInHunk s1 = cur_positionInHunk s + 1"
    "stamps (final_yield s1) =
       stamps (final_yield s) @ (if kept l then [(cur_positionInHunk s, l)] else [])"
    by auto
  from Cons.prems(3) s1 have run: "parse_loop ls s1 = Inr s'" by simp
  note IH = Cons.IH [OF f(1,2) run]
  have z: "map (\<lambda>k. cur_positionInHunk s + int k) [0 ..< length (l # ls)]
      = cur_positionInHunk s # map (\<lambda>k. cur_positionInHunk s1 + int k) [0 ..< length ls]"
    using f(3) by (simp add: map_upt_Suc add.assoc del: upt_Suc)
  show ?case
    unfolding z using IH f(3,4) by simp
qed


subsection \<open>Recognising and decoding a header line\<close>






subsection \<open>Control lines inside a hunk\<close>

text \<open>
  C6: let the parser have scanned the lines \<open>ls\<close> and hold the open hunk \<open>h\<close>. A next
  line that is no header and whose first character is none of blank, \<open>+\<close> and \<open>-\<close>
  (the marker \<^verbatim>\<open>\ No newline at end of file\<close>, or an empty line) appends no line to the
  hunk: the hunk holds at least one line, the flag \<^verbatim>\<open>endwithLineBreak\<close> of its last line
  becomes false, the position counter grows by one, and nothing else changes.
\<close>

theorem control_line_marks_previous:
  assumes "parse_loop ls initial_state = Inr s" and "diffHunk s = Some h"
    and "\<not> DIFF_HUNK_HEADER_test line"
    and "\<forall>c cs. line = c # cs \<longrightarrow> c \<notin> {CHR '' '', CHR ''+'', CHR ''-''}"
  shows "diffLines h \<noteq> [] \<and>
    parse_loop (ls @ [line]) initial_state =
      Inr (s\<lparr>diffHunk := Some (h\<lparr>diffLines :=
             butlast (diffLines h) @ [(last (diffLines h))\<lparr>endwithLineBreak := False\<rparr>]\<rparr>),
           cur_positionInHunk := cur_positionInHunk s + 1\<rparr>)"
proof -
  have inv: "parser_inv s" using assms(1) by (rule reached_inv)
  have ctl: "getDiffChangeType line = Control"
    using assms(4) by (cases line) (auto simp: getDiffChangeType_cases)
  from control_step [OF inv assms(2,3) ctl] parser_inv_open [OF inv assms(2)] assms(1)
  show ?thesis by (simp add: parse_loop_append)
qed

theorem control_line_marks_previous_witness:
  "\<exists>s h. parse_loop [''@@ -1 +1 @@'', ''-a''] initial_state = Inr s \<and> diffHunk s = Some h \<and>
     \<not> DIFF_HUNK_HEADER_test (CHR 0x5C # '' No newline at end of file'') \<and>
     diffLines h \<noteq> [] \<and>
     parse_loop ([''@@ -1 +1 @@'', ''-a''] @ [CHR 0x5C # '' No newline at end of file'']) initial_state =
       Inr (s\<lparr>diffHunk := Some (h\<lparr>diffLines :=
              butlast (diffLines h) @ [(last (diffLines h))\<lparr>endwithLineBreak := False\<rparr>]\<rparr>),
            cur_positionInHunk := cur_positionInHunk s + 1\<rparr>)"
proof -
  have "case parse_loop [''@@ -1 +1 @@'', ''-a''] initial_state of
          Inl e \<Rightarrow> False | Inr s \<Rightarrow> diffHunk s \<noteq> None"
    by code_simp
  then obtain s h where run: "parse_loop [''@@ -1 +1 @@'', ''-a''] initial_state = Inr s"
    and h: "diffHunk s = Some h"
    by (auto split: sum.splits)
  have nt: "\<not> DIFF_HUNK_HEADER_test (CHR 0x5C # '' No newline at end of file'')" by code_simp
  have fc: "\<forall>c cs. (CHR 0x5C # '' No newline at end of file'') = c # cs \<longrightarrow> c \<notin> {CHR '' '', CHR ''+'', CHR ''-''}"
    by simp
  from control_line_marks_previous [OF run h nt fc] run h nt show ?thesis by blast
qed

subsection \<open>Content lines inside a hunk\<close>

lemma jsadd_exact: "\<bar>x + n\<bar> \<le> 2 ^ 53 \<Longrightarrow> jsadd (Num x) n = Num (x + n)"
  by (simp add: jsadd_def to_double_exact)

text \<open>
  C7, as amended: let the parser have scanned the lines \<open>ls\<close> and hold the open hunk
  \<open>h\<close>. A next line that is no header and starts with a blank, \<open>+\<close> or \<open>-\<close> appends
  exactly one \<^verbatim>\<open>DiffLine\<close> \<open>d\<close> to the hunk, stamped with the current position, and adds
  \<open>n\<close>, one more than the number of carriage returns in the line, to the cursors: a
  context line to both cursors, an added line only to the new-side cursor, a deleted line
  only to the original-side cursor. The addition is that of the language: a cursor that
  is an integer \<open>x\<close> becomes \<open>x + n\<close> whenever \<open>x + n\<close> is at most \<open>2 ^ 53\<close>, and
  \<^verbatim>\<open>NaN\<close> stays \<^verbatim>\<open>NaN\<close>. The original-side cursor is never \<^verbatim>\<open>NaN\<close>.
\<close>

theorem content_line_advances_cursors:
  assumes "parse_loop ls initial_state = Inr s" and "diffHunk s = Some h"
    and "\<not> DIFF_HUNK_HEADER_test line" and "line = c # cs"
    and "c \<in> {CHR '' '', CHR ''+'', CHR ''-''}"
  shows "\<exists>s' d n.
     parse_loop (ls @ [line]) initial_state = Inr s' \<and>
     diffHunk s' = Some (h\<lparr>diffLines := diffLines h @ [d]\<rparr>) \<and>
     raw d = line \<and> positionInHunk d = cur_positionInHunk s \<and> endwithLineBreak d \<and>
     n = 1 + int (countCarriageReturns line) \<and>
     n = 1 + int (length (filter (\<lambda>x. x = CR) line)) \<and>
     (c = CHR '' '' \<longrightarrow>
        type d = Context \<and> oldLineNumber d = oldLine s \<and> newLineNumber d = newLine s \<and>
        oldLine s' = jsadd (oldLine s) n \<and> newLine s' = jsadd (newLine s) n) \<and>
     (c = CHR ''+'' \<longrightarrow>
        type d = Add \<and> oldLineNumber d = Num (- 1) \<and> newLineNumber d = newLine s \<and>
        oldLine s' = oldLine s \<and> newLine s' = jsadd (newLine s) n) \<and>
     (c = CHR ''-'' \<longrightarrow>
        type d = Delete \<and> oldLineNumber d = oldLine s \<and> newLineNumber d = Num (- 1) \<and>
        oldLine s' = jsadd (oldLine s) n \<and> newLine s' = newLine s) \<and>
     (\<forall>x. \<bar>x + n\<bar> \<le> 2 ^ 53 \<longrightarrow> jsadd (Num x) n = Num (x + n)) \<and>
     jsadd NaN n = NaN \<and> oldLine s \<noteq> NaN"
proof -
  have inv: "parser_inv s" using assms(1) by (rule reached_inv)
  from parser_inv_open [OF inv assms(2)] have a: "oldLine s \<noteq> NaN" by blast
  let ?ty = "getDiffChangeType line"
  let ?n = "1 + int (length (filter (\<lambda>x. x = CR) line))"
  have ty: "?ty = (if c = CHR '' '' then Context else if c = CHR ''+'' then Add else Delete)"
    using assms(4,5) by (auto simp: getDiffChangeType_cases)
  then have nc: "?ty \<noteq> Control" by simp
  let ?d = "\<lparr>type = ?ty,
              oldLineNumber = (if ?ty = Add then Num (-1) else oldLine s),
              newLineNumber = (if ?ty = Delete then Num (-1) else newLine s),
              positionInHunk = cur_positionInHunk s, raw = line,
              endwithLineBreak = True\<rparr>"
  let ?s' = "s\<lparr>diffHunk := Some (h\<lparr>diffLines := diffLines h @ [?d]\<rparr>),
          oldLine := (if ?ty = Add then oldLine s else jsadd (oldLine s) ?n),
          newLine := (if ?ty = Delete then newLine s else jsadd (newLine s) ?n),
          cur_positionInHunk := cur_positionInHunk s + 1\<rparr>"
  from content_step [OF inv assms(2,3) refl nc] assms(1)
  have run: "parse_loop (ls @ [line]) initial_state = Inr ?s'"
    by (simp add: parse_loop_append)
  have ex: "\<forall>x. \<bar>x + ?n\<bar> \<le> 2 ^ 53 \<longrightarrow> jsadd (Num x) ?n = Num (x + ?n)"
    using jsadd_exact by blast
  have nan: "jsadd NaN ?n = NaN" by (simp add: jsadd_def)
  have "parse_loop (ls @ [line]) initial_state = Inr ?s' \<and>
     diffHunk ?s' = Some (h\<lparr>diffLines := diffLines h @ [?d]\<rparr>) \<and>
     raw ?d = line \<and> positionInHunk ?d = cur_positionInHunk s \<and> endwithLineBreak ?d \<and>
     ?n = 1 + int (countCarriageReturns line) \<and>
     ?n = 1 + int (length (filter (\<lambda>x. x = CR) line)) \<and>
     (c = CHR '' '' \<longrightarrow>
        type ?d = Context \<and> oldLineNumber ?d = oldLine s \<and> newLineNumber ?d = newLine s \<and>
        oldLine ?s' = jsadd (oldLine s) ?n \<and> newLine ?s' = jsadd (newLine s) ?n) \<and>
     (c = CHR ''+'' \<longrightarrow>
        type ?d = Add \<and> oldLineNumber ?d = Num (- 1) \<and> newLineNumber ?d = newLine s \<and>
        oldLine ?s' = oldLine s \<and> newLine ?s' = jsadd (newLine s) ?n) \<and>
     (c = CHR ''-'' \<longrightarrow>
        type ?d = Delete \<and> oldLineNumber ?d = oldLine s \<and> newLineNumber ?d = Num (- 1) \<and>
        oldLine ?s' = jsadd (oldLine s) ?n \<and> newLine ?s' = newLine s)"
    using run ty by (simp add: countCarriageReturns_count)
  with ex nan a show ?thesis by blast
qed

theorem content_line_advances_cursors_witness:
  "\<exists>s h s' d.
     parse_loop [''@@ -1,2 +1,2 @@''] initial_state = Inr s \<and> diffHunk s = Some h \<and>
     \<not> DIFF_HUNK_HEADER_test ('' a'' @ [CR] @ ''b'') \<and>
     oldLine s = Num 1 \<and> newLine s = Num 1 \<and>
     countCarriageReturns ('' a'' @ [CR] @ ''b'') = 1 \<and>
     parse_loop ([''@@ -1,2 +1,2 @@''] @ ['' a'' @ [CR] @ ''b'']) initial_state = Inr s' \<and>
     diffHunk s' = Some (h\<lparr>diffLines := diffLines h @ [d]\<rparr>) \<and>
     type d = Context \<and> oldLine s' = Num 3 \<and> newLine s' = Num 3"
proof -
  let ?line = "'' a'' @ [CR] @ ''b''"
  have "case parse_loop [''@@ -1,2 +1,2 @@''] initial_state of
          Inl e \<Rightarrow> False
        | Inr s \<Rightarrow> diffHunk s \<noteq> None \<and> oldLine s = Num 1 \<and> newLine s = Num 1"
    by code_simp
  then obtain s h where run: "parse_loop [''@@ -1,2 +1,2 @@''] initial_state = Inr s"
    and h: "diffHunk s = Some h" and c: "oldLine s = Num 1" "newLine s = Num 1"
    by (auto split: sum.splits)
  have nt: "\<not> DIFF_HUNK_HEADER_test ?line" by code_simp
  have l: "?line = CHR '' '' # (''a'' @ [CR] @ ''b'')" by simp
  have m: "CHR '' '' \<in> {CHR '' '', CHR ''+'', CHR ''-''}" by simp
  from content_line_advances_cursors [OF run h nt l m]
  obtain s' d n where r:
    "parse_loop ([''@@ -1,2 +1,2 @@''] @ [?line]) initial_state = Inr s'"
    "diffHunk s' = Some (h\<lparr>diffLines := diffLines h @ [d]\<rparr>)"
    "n = 1 + int (countCarriageReturns ?line)"
    "n = 1 + int (length (filter (\<lambda>x. x = CR) ?line))"
    "type d = Context" "oldLine s' = jsadd (oldLine s) n" "newLine s' = jsadd (newLine s) n"
    "\<forall>x. \<bar>x + n\<bar> \<le> 2 ^ 53 \<longrightarrow> jsadd (Num x) n = Num (x + n)"
    by auto
  from r(4) have n: "n = 2" by simp
  with r(3) have cr: "countCarriageReturns ?line = 1" by simp
  from r(8) n have "jsadd (Num 1) 2 = Num 3" by simp
  with r(6,7) c n have "oldLine s' = Num 3" "newLine s' = Num 3" by simp_all
  with run h nt c cr r(1,2,5) show ?thesis by blast
qed

text \<open>
  The claim as stated fails where the addition is not exact or the cursor is no number.
  After the header \<^verbatim>\<open>@@ -9007199254740992 +1 @@\<close> the original-side cursor is \<open>2 ^ 53\<close>,
  and the deleted line \<^verbatim>\<open>-a\<close> leaves it there. After the header \<^verbatim>\<open>@@ -1 @@\<close> the
  new-side cursor is \<^verbatim>\<open>NaN\<close>, and the added line \<^verbatim>\<open>+a\<close> leaves it so.
\<close>

theorem content_line_advances_cursors_counterexample:
  "map_sum id oldLine (parse_loop [''@@ -9007199254740992 +1 @@''] initial_state)
     = Inr (Num 9007199254740992) \<and>
   \<not> DIFF_HUNK_HEADER_test ''-a'' \<and> getDiffChangeType ''-a'' = Delete \<and>
   countCarriageReturns ''-a'' = 0 \<and>
   map_sum id oldLine (parse_loop [''@@ -9007199254740992 +1 @@'', ''-a''] initial_state)
     = Inr (Num 9007199254740992) \<and>
   map_sum id newLine (parse_loop [''@@ -1 @@''] initial_state) = Inr NaN \<and>
   \<not> DIFF_HUNK_HEADER_test ''+a'' \<and> getDiffChangeType ''+a'' = Add \<and>
   map_sum id newLine (parse_loop [''@@ -1 @@'', ''+a''] initial_state) = Inr NaN"
  by code_simp

subsection \<open>The parser never faults\<close>

lemma idle_run:
  "parser_inv s \<Longrightarrow> diffHunk s = None \<Longrightarrow> \<forall>l\<in>set pre. \<not> DIFF_HUNK_HEADER_test l \<Longrightarrow>
   parse_loop pre s = Inr s"
  by (induction pre) (simp_all add: idle_unchanged)

lemma hunk_count_step:
  assumes "loop_body line s = Inr s'"
  shows "length (final_yield s') =
     length (final_yield s) + (if DIFF_HUNK_HEADER_test line then 1 else 0)"
proof (cases "DIFF_HUNK_HEADER_test line")
  case True
  from header_step [OF True, of s] assms True show ?thesis
    by (auto simp: final_yield_def)
next
  case False
  with assms show ?thesis
    by (auto simp: loop_body_def advance_position_def content_branch_def final_yield_def Let_def
        split: option.splits DiffChangeType.splits if_splits)
qed

lemma hunk_count_run:
  "parse_loop ls s = Inr s' \<Longrightarrow>
   length (final_yield s') = length (final_yield s) + length (filter DIFF_HUNK_HEADER_test ls)"
proof (induction ls arbitrary: s)
  case Nil
  then show ?case by simp
next
  case (Cons l ls)
  from loop_body_Inr obtain s1 where s1: "loop_body l s = Inr s1" by blast
  with Cons.prems have "parse_loop ls s1 = Inr s'" by simp
  from Cons.IH [OF this] hunk_count_step [OF s1] show ?case by simp
qed





subsection \<open>The cumulative position\<close>

lemma sorted_stamp_index:
  "sorted_wrt (<) (map fst (filter P (zip (map int [0 ..< n]) ls)))"
proof -
  have "sorted_wrt (<) (map int [0 ..< n])"
    by (simp add: sorted_wrt_map)
  then have "sorted_wrt (<) (take (min (length (map int [0 ..< n])) (length ls)) (map int [0 ..< n]))"
    by (rule sorted_wrt_take)
  then have "sorted_wrt (<) (map fst (zip (map int [0 ..< n]) ls))"
    by (simp only: map_fst_zip_take)
  then have "sorted_wrt (\<lambda>a b. fst a < fst b) (zip (map int [0 ..< n]) ls)"
    by (simp add: sorted_wrt_map)
  then have "sorted_wrt (\<lambda>a b. fst a < fst b) (filter P (zip (map int [0 ..< n]) ls))"
    by (rule sorted_wrt_filter)
  then show ?thesis by (simp add: sorted_wrt_map)
qed

lemma sorted_concat_cross:
  "sorted_wrt R (concat xss) \<Longrightarrow> i < j \<Longrightarrow> j < length xss \<Longrightarrow>
   x \<in> set (xss ! i) \<Longrightarrow> y \<in> set (xss ! j) \<Longrightarrow> R x y"
proof (induction xss arbitrary: i j)
  case Nil
  then show ?case by simp
next
  case (Cons xs xss)
  from Cons.prems(2) obtain j' where j: "j = Suc j'" by (cases j) auto
  from Cons.prems(1) have s: "sorted_wrt R (concat xss)"
    and c: "\<forall>a\<in>set xs. \<forall>b\<in>set (concat xss). R a b"
    by (auto simp: sorted_wrt_append)
  show ?case
  proof (cases i)
    case 0
    have "y \<in> set (concat xss)" using Cons.prems(3,5) j by auto
    with c Cons.prems(4) 0 show ?thesis by auto
  next
    case (Suc i')
    with Cons.IH [OF s, of i' j'] Cons.prems j show ?thesis by simp
  qed
qed

lemma positions_of_stamps:
  "map fst (stamps hs) = map positionInHunk (concat (map diffLines hs))"
  by (simp add: stamps_def comp_def)

lemma headed_position:
  "headed h \<Longrightarrow> \<exists>d\<in>set (diffLines h). positionInHunk d = hunk_positionInHunk h"
  by (auto simp: headed_def split: list.splits)

lemma first_header_run:
  assumes pre: "\<forall>l\<in>set pre. \<not> DIFF_HUNK_HEADER_test l" and hdr: "DIFF_HUNK_HEADER_test hdr"
  shows "\<exists>s. parse_loop (pre @ hdr # post) initial_state = Inr s \<and> parser_inv s \<and>
     cur_positionInHunk s = int (length post) + 1 \<and>
     stamps (final_yield s) =
       filter (\<lambda>(i, l). kept l) (zip (map int [0 ..< Suc (length post)]) (hdr # post))"
proof -
  have r0: "parse_loop pre initial_state = Inr initial_state"
    by (rule idle_run [OF parser_inv_initial _ pre]) (simp add: initial_state_def)
  from loop_body_Inr obtain s1 where s1: "loop_body hdr initial_state = Inr s1" by blast
  from step_facts [OF parser_inv_initial s1] hdr
  have f: "parser_inv s1" "diffHunk s1 \<noteq> None" "cur_positionInHunk s1 = 1"
    "stamps (final_yield s1) = [(0, hdr)]"
    by (simp_all add: start_position_def initial_state_def final_yield_def stamps_def kept_def)
  from parse_loop_Inr obtain s where s: "parse_loop post s1 = Inr s" by blast
  from open_run [OF f(1,2) s] f(3,4)
  have g: "cur_positionInHunk s = 1 + int (length post)"
    "stamps (final_yield s) = (0, hdr) #
       filter (\<lambda>(i, l). kept l) (zip (map (\<lambda>k. 1 + int k) [0 ..< length post]) post)"
    by simp_all
  have z: "map int [0 ..< Suc (length post)] = 0 # map (\<lambda>k. 1 + int k) [0 ..< length post]"
    by (simp add: map_upt_Suc add.commute del: upt_Suc)
  have "parse_loop (pre @ hdr # post) initial_state = Inr s"
    using r0 s1 s by (simp add: parse_loop_append)
  moreover have "parser_inv s" by (rule parser_inv_run [OF f(1) s])
  ultimately show ?thesis
    unfolding z using g hdr by (simp add: kept_def)
qed

text \<open>
  C2: let \<open>hdr\<close> be the first scanned line of the patch that is recognised as a header,
  after the lines \<open>pre\<close> and before the lines \<open>post\<close>. The position counter is still
  disabled after \<open>pre\<close>; the header is given the position 0, and after the header and
  \<open>k\<close> further lines of any kind the counter is \<open>k + 1\<close>: it grows by exactly one with
  every scanned line and is never reset. Hence every \<^verbatim>\<open>DiffLine\<close> of the result carries
  the index that its line has in \<open>hdr # post\<close>; the first hunk has the position 0; every
  hunk starts with its header line and has the position of that line; the header of a
  later hunk has a position greater than every position in an earlier hunk; and when no
  line of \<open>post\<close> is a header or a control line, the patch has a single hunk whose lines
  have the positions 0, 1, 2 and so on.
\<close>

theorem cumulative_position:
  assumes "LineReader patch = pre @ hdr # post"
    and "\<forall>l\<in>set pre. \<not> DIFF_HUNK_HEADER_test l" and "DIFF_HUNK_HEADER_test hdr"
  shows "\<exists>hs. parseDiffHunk patch = Inr hs \<and>
     (\<exists>s. parse_loop pre initial_state = Inr s \<and> cur_positionInHunk s = - 1) \<and>
     (\<forall>k\<le>length post. \<exists>s. parse_loop (pre @ hdr # take k post) initial_state = Inr s \<and>
        cur_positionInHunk s = int k + 1) \<and>
     stamps hs = filter (\<lambda>(i, l). kept l) (zip (map int [0 ..< Suc (length post)]) (hdr # post)) \<and>
     hs \<noteq> [] \<and> hunk_positionInHunk (hd hs) = 0 \<and> list_all headed hs \<and>
     (\<forall>i j. i < j \<and> j < length hs \<longrightarrow>
        (\<forall>d\<in>set (diffLines (hs ! i)). positionInHunk d < hunk_positionInHunk (hs ! j))) \<and>
     ((\<forall>l\<in>set post. \<not> DIFF_HUNK_HEADER_test l \<and> getDiffChangeType l \<noteq> Control) \<longrightarrow>
        (\<exists>h. hs = [h] \<and> map positionInHunk (diffLines h) = map int [0 ..< Suc (length post)]))"
proof -
  from first_header_run [OF assms(2,3), of post] obtain s where
    s: "parse_loop (pre @ hdr # post) initial_state = Inr s" "parser_inv s"
      "stamps (final_yield s) =
        filter (\<lambda>(i, l). kept l) (zip (map int [0 ..< Suc (length post)]) (hdr # post))"
    by blast
  let ?hs = "final_yield s"
  have p: "parseDiffHunk patch = Inr ?hs"
    using s(1) assms(1) by (simp add: parseDiffHunk_def)
  have a: "\<exists>s. parse_loop pre initial_state = Inr s \<and> cur_positionInHunk s = - 1"
    using idle_run [OF parser_inv_initial _ assms(2)] by (simp add: initial_state_def)
  have b: "\<forall>k\<le>length post. \<exists>s. parse_loop (pre @ hdr # take k post) initial_state = Inr s \<and>
        cur_positionInHunk s = int k + 1"
  proof (intro allI impI)
    fix k assume "k \<le> length post"
    with first_header_run [OF assms(2,3), of "take k post"]
    show "\<exists>s. parse_loop (pre @ hdr # take k post) initial_state = Inr s \<and>
        cur_positionInHunk s = int k + 1"
      by (auto simp: min_def)
  qed
  have hd: "list_all headed ?hs" using s(2) by (simp add: parser_inv_def)
  have kh: "kept hdr" using assms(3) by (simp add: kept_def)
  have "map int [0 ..< Suc (length post)] = 0 # map int [1 ..< Suc (length post)]"
    by (simp add: upt_conv_Cons del: upt_Suc)
  then obtain r where st: "stamps ?hs = (0, hdr) # r"
    unfolding s(3) using kh by simp
  then have ne: "?hs \<noteq> []" by (auto simp: stamps_def)
  then obtain h1 rest where h1: "?hs = h1 # rest" by (cases ?hs) auto
  with hd obtain d ds where d: "diffLines h1 = d # ds" "positionInHunk d = hunk_positionInHunk h1"
    by (auto simp: headed_def split: list.splits)
  with st h1 have z: "hunk_positionInHunk (hd ?hs) = 0"
    by (simp add: stamps_def)
  have sorted: "sorted_wrt (<) (map positionInHunk (concat (map diffLines ?hs)))"
    using sorted_stamp_index [of "\<lambda>(i, l). kept l" "Suc (length post)" "hdr # post"]
    unfolding s(3) [symmetric] positions_of_stamps .
  then have sorted': "sorted_wrt (\<lambda>x y. positionInHunk x < positionInHunk y) (concat (map diffLines ?hs))"
    by (simp add: sorted_wrt_map)
  have e: "\<forall>i j. i < j \<and> j < length ?hs \<longrightarrow>
        (\<forall>d\<in>set (diffLines (?hs ! i)). positionInHunk d < hunk_positionInHunk (?hs ! j))"
  proof (intro allI impI ballI)
    fix i j d assume ij: "i < j \<and> j < length ?hs" and dm: "d \<in> set (diffLines (?hs ! i))"
    then have "headed (?hs ! j)" using hd by (simp add: list_all_length)
    from headed_position [OF this] obtain d' where
      d': "d' \<in> set (diffLines (?hs ! j))" "positionInHunk d' = hunk_positionInHunk (?hs ! j)"
      by blast
    from sorted_concat_cross [OF sorted', of i j d d'] ij dm d'(1)
    have "positionInHunk d < positionInHunk d'" by simp
    with d'(2) show "positionInHunk d < hunk_positionInHunk (?hs ! j)" by simp
  qed
  have f: "\<exists>h. ?hs = [h] \<and> map positionInHunk (diffLines h) = map int [0 ..< Suc (length post)]"
    if wf: "\<forall>l\<in>set post. \<not> DIFF_HUNK_HEADER_test l \<and> getDiffChangeType l \<noteq> Control"
  proof -
    have "length (filter DIFF_HUNK_HEADER_test (pre @ hdr # post)) = 1"
      using assms(2,3) wf by (simp add: filter_empty_conv)
    moreover have "length (final_yield initial_state) = 0"
      by (simp add: final_yield_def initial_state_def)
    ultimately have "length ?hs = 1"
      using hunk_count_run [OF s(1)] by (simp only:)
    with h1 have one: "?hs = [h1]" by simp
    have allk: "\<forall>l\<in>set (hdr # post). kept l"
      using wf assms(3) by (auto simp: kept_def)
    have "filter (\<lambda>(i, l). kept l) (zip X (hdr # post)) = zip X (hdr # post)" for X :: "int list"
    proof (rule filter_True, clarify)
      fix i l assume "(i, l) \<in> set (zip X (hdr # post))"
      then have "l \<in> set (hdr # post)" by (rule set_zip_rightD)
      with allk show "kept l" by blast
    qed
    with s(3) have "map fst (stamps ?hs) = map fst (zip (map int [0 ..< Suc (length post)]) (hdr # post))"
      by simp
    also have "\<dots> = map int [0 ..< Suc (length post)]"
      by (simp add: map_fst_zip_take del: upt_Suc)
    finally show ?thesis using one by (simp add: positions_of_stamps)
  qed
  from p a b s(3) ne z hd e f show ?thesis by blast
qed

theorem cumulative_position_witness:
  "\<exists>hs. LineReader (''@@ -1 +1 @@'' @ [LF] @ ''-a'' @ [LF] @ ''~'' @ [LF] @ ''+b'' @ [LF] @
                     ''@@ -5 +5 @@'' @ [LF] @ '' c'')
          = [] @ ''@@ -1 +1 @@'' # [''-a'', ''~'', ''+b'', ''@@ -5 +5 @@'', '' c''] \<and>
        DIFF_HUNK_HEADER_test ''@@ -1 +1 @@'' \<and>
        parseDiffHunk (''@@ -1 +1 @@'' @ [LF] @ ''-a'' @ [LF] @ ''~'' @ [LF] @ ''+b'' @ [LF] @
                     ''@@ -5 +5 @@'' @ [LF] @ '' c'') = Inr hs \<and>
        stamps hs = [(0, ''@@ -1 +1 @@''), (1, ''-a''), (3, ''+b''), (4, ''@@ -5 +5 @@''),
                     (5, '' c'')] \<and>
        hunk_positionInHunk (hd hs) = 0 \<and>
        (\<forall>i j. i < j \<and> j < length hs \<longrightarrow>
          (\<forall>d\<in>set (diffLines (hs ! i)). positionInHunk d < hunk_positionInHunk (hs ! j)))"
proof -
  let ?p = "''@@ -1 +1 @@'' @ [LF] @ ''-a'' @ [LF] @ ''~'' @ [LF] @ ''+b'' @ [LF] @
            ''@@ -5 +5 @@'' @ [LF] @ '' c''"
  let ?post = "[''-a'', ''~'', ''+b'', ''@@ -5 +5 @@'', '' c'']"
  have l: "LineReader ?p = [] @ ''@@ -1 +1 @@'' # ?post" by code_simp
  have n: "\<forall>l\<in>set []. \<not> DIFF_HUNK_HEADER_test l" by simp
  have t: "DIFF_HUNK_HEADER_test ''@@ -1 +1 @@''" by code_simp
  have f: "filter (\<lambda>(i, l). kept l)
        (zip (map int [0 ..< Suc (length ?post)]) (''@@ -1 +1 @@'' # ?post))
      = [(0, ''@@ -1 +1 @@''), (1, ''-a''), (3, ''+b''), (4, ''@@ -5 +5 @@''), (5, '' c'')]"
    by code_simp
  from cumulative_position [OF l n t] l t show ?thesis
    unfolding f by blast
qed

subsection \<open>The reconstructor\<close>

declare copy_loop.simps [simp del]

lemma split_lines_not_Nil: "split_lines cur s \<noteq> []"
  by (induction cur s rule: split_lines.induct) auto

lemma copy_loop_in_range:
  "1 \<le> j \<Longrightarrow> bound \<le> int (length left) + 1 \<Longrightarrow> None \<notin> set (copy_loop left j bound)"
proof (induction left j bound rule: copy_loop.induct)
  case (1 left j bound)
  show ?case
  proof (cases "j < bound")
    case True
    with "1.prems" have "left_at left (j - 1) \<noteq> None"
      by (simp add: left_at_def)
    moreover have "None \<notin> set (copy_loop left (j + 1) bound)"
      using "1.IH" [OF True] "1.prems" by simp
    ultimately show ?thesis
      using True by (subst copy_loop.simps) auto
  next
    case False
    then show ?thesis by (subst copy_loop.simps) simp
  qed
qed

lemma copy_loop_all:
  "k \<le> length left \<Longrightarrow>
   copy_loop left (int k + 1) (int (length left) + 1) = map Some (drop k left)"
proof (induction "length left - k" arbitrary: k)
  case 0
  then show ?case by (subst copy_loop.simps) simp
next
  case (Suc n)
  then have k: "k < length left" by simp
  have "copy_loop left (int (Suc k) + 1) (int (length left) + 1) = map Some (drop (Suc k) left)"
    using Suc.hyps(1) [of "Suc k"] Suc.hyps(2) k by simp
  moreover have "left_at left (int k + 1 - 1) = Some (left ! k)"
    using k by (simp add: left_at_def)
  moreover have "drop k left = left ! k # drop (Suc k) left"
    using k by (simp add: Cons_nth_drop_Suc)
  ultimately show ?case
    using k by (subst copy_loop.simps) (simp add: add.commute)
qed

lemma push_diffLines_Some: "None \<notin> set right \<Longrightarrow> None \<notin> set (push_diffLines ds right)"
  by (induction ds arbitrary: right) auto

lemma join_Some: "join (map Some (l # ls)) = l @ concat (map (\<lambda>x. LF # x) ls)"
  by (induction ls arbitrary: l) simp_all

lemma right_lines_no_hunks: "right_lines left [] = map Some left"
proof (cases left)
  case Nil
  then show ?thesis by (simp add: right_lines_def jsless_def)
next
  case (Cons l ls)
  with copy_loop_all [of 0 left] show ?thesis
    by (simp add: right_lines_def jsless_def copy_from_def jsadd_def to_double_exact)
qed

text \<open>
  C5: when the patch yields no hunk, the reconstruction returns the lines into which the
  original content splits, joined again with a single \<open>LF\<close> between them: the content
  is unchanged except that every line ending is \<open>LF\<close>. The array \<^verbatim>\<open>right\<close> is the array
  \<^verbatim>\<open>left\<close> itself.
\<close>

theorem reconstruct_without_hunks:
  assumes "parseDiffHunk patch = Inr []"
  shows "\<exists>l ls. split_newlines originalContent = l # ls \<and>
     right_lines (l # ls) [] = map Some (l # ls) \<and>
     getModifiedContentFromDiffHunk originalContent patch
       = Inr (l @ concat (map (\<lambda>x. LF # x) ls))"
proof -
  obtain l ls where s: "split_newlines originalContent = l # ls"
    using split_lines_not_Nil [of "[]" originalContent]
    by (cases "split_newlines originalContent") (auto simp: split_newlines_def)
  have "getModifiedContentFromDiffHunk originalContent patch = Inr (join (map Some (l # ls)))"
    using assms s by (simp add: getModifiedContentFromDiffHunk_def right_lines_no_hunks)
  with s right_lines_no_hunks [of "l # ls"] show ?thesis
    by (simp only: join_Some) blast
qed

theorem reconstruct_without_hunks_witness:
  "parseDiffHunk ''no header'' = Inr [] \<and>
   split_newlines (''a'' @ [CR, LF] @ ''b'' @ [LF]) = [''a'', ''b'', []] \<and>
   getModifiedContentFromDiffHunk (''a'' @ [CR, LF] @ ''b'' @ [LF]) ''no header''
     = Inr (''a'' @ [LF] @ ''b'' @ [LF])"
proof -
  have p: "parseDiffHunk ''no header'' = Inr []" by code_simp
  have s: "split_newlines (''a'' @ [CR, LF] @ ''b'' @ [LF]) = [''a'', ''b'', []]" by code_simp
  from reconstruct_without_hunks [OF p, of "''a'' @ [CR, LF] @ ''b'' @ [LF]"] p s
  show ?thesis by auto
qed

text \<open>
  The value of \<^verbatim>\<open>lastCommonLine\<close> between two hunks: an integer that is not negative,
  or \<^verbatim>\<open>Infinity\<close>.
\<close>

lemma copy_from_in_range:
  assumes "lc = Infinity \<or> (\<exists>c. lc = Num c \<and> 0 \<le> c)" and "b \<le> int (length left) + 1"
  shows "None \<notin> set (copy_from left lc (Num b))"
proof (cases lc)
  case (Num c)
  with assms(1) have "0 \<le> c" by simp
  then have "1 \<le> c + 1" by simp
  from to_double_pos [OF this] show ?thesis
  proof
    assume "to_double (c + 1) = Infinity"
    with Num show ?thesis by (simp add: copy_from_def jsadd_def)
  next
    assume "\<exists>r. to_double (c + 1) = Num r \<and> 1 \<le> r"
    then obtain r where r: "to_double (c + 1) = Num r" "1 \<le> r" by blast
    from copy_loop_in_range [OF r(2) assms(2)] Num r(1) show ?thesis
      by (simp add: copy_from_def jsadd_def)
  qed
next
  case NaN
  with assms(1) show ?thesis by simp
next
  case Infinity
  then show ?thesis by (simp add: copy_from_def jsadd_def)
qed

lemma lastCommonLine_nonneg:
  assumes "1 \<le> a" and "0 \<le> len"
  shows "jsadd (jsadd (Num a) len) (- 1) = Infinity \<or>
         (\<exists>c. jsadd (jsadd (Num a) len) (- 1) = Num c \<and> 0 \<le> c)"
proof -
  from assms have "1 \<le> a + len" by simp
  from to_double_pos [OF this] show ?thesis
  proof
    assume "to_double (a + len) = Infinity"
    then show ?thesis by (simp add: jsadd_def)
  next
    assume "\<exists>r. to_double (a + len) = Num r \<and> 1 \<le> r"
    then obtain r where r: "to_double (a + len) = Num r" "1 \<le> r" by blast
    then have "0 \<le> r + - 1" by simp
    from to_double_nonneg [OF this] r(1) show ?thesis by (simp add: jsadd_def)
  qed
qed

lemma hunks_loop_bounds:
  assumes "None \<notin> set right" and "lc = Infinity \<or> (\<exists>c. lc = Num c \<and> 0 \<le> c)"
    and "\<forall>h\<in>set hs. \<exists>a. hunk_oldLineNumber h = Num a \<and> 1 \<le> a \<and> 0 \<le> oldLength h \<and>
            a + oldLength h - 1 \<le> int (length left)"
  shows "\<exists>right' lc'. hunks_loop left hs (right, lc) = (right', lc') \<and>
           None \<notin> set right' \<and> (lc' = Infinity \<or> (\<exists>c. lc' = Num c \<and> 0 \<le> c))"
  using assms
proof (induction hs arbitrary: right lc)
  case Nil
  then show ?case by simp
next
  case (Cons h hs)
  from Cons.prems(3) obtain a where
    a: "hunk_oldLineNumber h = Num a" "1 \<le> a" "0 \<le> oldLength h"
       "a + oldLength h - 1 \<le> int (length left)"
    by auto
  let ?right1 = "right @ copy_from left lc (Num a)"
  let ?right2 = "push_diffLines (diffLines h) ?right1"
  let ?lc1 = "jsadd (jsadd (Num a) (oldLength h)) (- 1)"
  have "a \<le> int (length left) + 1" using a by simp
  from copy_from_in_range [OF Cons.prems(2) this] Cons.prems(1)
  have r2: "None \<notin> set ?right2"
    by (intro push_diffLines_Some) simp
  have c1: "?lc1 = Infinity \<or> (\<exists>c. ?lc1 = Num c \<and> 0 \<le> c)"
    by (rule lastCommonLine_nonneg [OF a(2,3)])
  have step: "hunks_loop left (h # hs) (right, lc) = hunks_loop left hs (?right2, ?lc1)"
    using a(1) by (simp add: Let_def)
  from Cons.IH [OF r2 c1] Cons.prems(3) show ?case
    unfolding step by simp
qed

text \<open>
  C3, as amended: if every hunk parsed from the patch has an original start of at least 1,
  an original length that is not negative, and \<open>start + length - 1\<close> at most the number of
  lines of the original content, then every read of the array \<^verbatim>\<open>left\<close>, in the copy loop
  before a hunk and in the copy loop after the last hunk, is within bounds: no entry of
  \<^verbatim>\<open>right\<close> is \<^verbatim>\<open>undefined\<close>. The entries of \<^verbatim>\<open>right\<close> are the reads of \<^verbatim>\<open>left\<close> and
  the texts of the hunks' lines, and only a read out of range gives \<^verbatim>\<open>undefined\<close>.
\<close>

theorem reads_within_bounds:
  assumes "parseDiffHunk patch = Inr hs"
    and "\<forall>h\<in>set hs. \<exists>a. hunk_oldLineNumber h = Num a \<and> 1 \<le> a \<and> 0 \<le> oldLength h \<and>
            a + oldLength h - 1 \<le> int (length (split_newlines originalContent))"
  shows "None \<notin> set (right_lines (split_newlines originalContent) hs) \<and>
     getModifiedContentFromDiffHunk originalContent patch
       = Inr (join (right_lines (split_newlines originalContent) hs))"
proof -
  let ?left = "split_newlines originalContent"
  have "(Num 0 :: jsnum) = Infinity \<or> (\<exists>c. Num 0 = Num c \<and> (0::int) \<le> c)" by simp
  from hunks_loop_bounds [of "[]" "Num 0" hs ?left, OF _ this assms(2)] obtain right lc where
    l: "hunks_loop ?left hs ([], Num 0) = (right, lc)" "None \<notin> set right"
      "lc = Infinity \<or> (\<exists>c. lc = Num c \<and> 0 \<le> c)"
    by auto
  have "None \<notin> set (copy_from ?left lc (Num (int (length ?left) + 1)))"
    by (rule copy_from_in_range [OF l(3)]) simp
  with l have "None \<notin> set (right_lines ?left hs)"
    by (simp add: right_lines_def)
  with assms(1) show ?thesis
    by (simp add: getModifiedContentFromDiffHunk_def)
qed

theorem reads_within_bounds_witness:
  "\<exists>hs. parseDiffHunk (''@@ -2,1 +2,2 @@'' @ [LF] @ '' b'' @ [LF] @ ''+x'') = Inr hs \<and>
     (\<forall>h\<in>set hs. \<exists>a. hunk_oldLineNumber h = Num a \<and> 1 \<le> a \<and> 0 \<le> oldLength h \<and>
        a + oldLength h - 1 \<le> int (length (split_newlines (''a'' @ [LF] @ ''b'' @ [LF] @ ''c'')))) \<and>
     None \<notin> set (right_lines (split_newlines (''a'' @ [LF] @ ''b'' @ [LF] @ ''c'')) hs) \<and>
     getModifiedContentFromDiffHunk (''a'' @ [LF] @ ''b'' @ [LF] @ ''c'')
       (''@@ -2,1 +2,2 @@'' @ [LF] @ '' b'' @ [LF] @ ''+x'')
       = Inr (''a'' @ [LF] @ ''b'' @ [LF] @ ''x'' @ [LF] @ ''c'')"
proof -
  let ?p = "''@@ -2,1 +2,2 @@'' @ [LF] @ '' b'' @ [LF] @ ''+x''"
  let ?o = "''a'' @ [LF] @ ''b'' @ [LF] @ ''c''"
  have "case parseDiffHunk ?p of Inl e \<Rightarrow> False
        | Inr hs \<Rightarrow> list_all (\<lambda>h. case hunk_oldLineNumber h of NaN \<Rightarrow> False
             | Infinity \<Rightarrow> False
             | Num a \<Rightarrow> 1 \<le> a \<and> 0 \<le> oldLength h \<and>
                 a + oldLength h - 1 \<le> int (length (split_newlines ?o))) hs"
    by code_simp
  then obtain hs where p: "parseDiffHunk ?p = Inr hs"
    and la: "list_all (\<lambda>h. case hunk_oldLineNumber h of NaN \<Rightarrow> False
             | Infinity \<Rightarrow> False
             | Num a \<Rightarrow> 1 \<le> a \<and> 0 \<le> oldLength h \<and>
                 a + oldLength h - 1 \<le> int (length (split_newlines ?o))) hs"
    by (auto split: sum.splits)
  have h: "\<forall>h\<in>set hs. \<exists>a. hunk_oldLineNumber h = Num a \<and> 1 \<le> a \<and> 0 \<le> oldLength h \<and>
        a + oldLength h - 1 \<le> int (length (split_newlines ?o))"
  proof
    fix h assume "h \<in> set hs"
    with la have "case hunk_oldLineNumber h of NaN \<Rightarrow> False
             | Infinity \<Rightarrow> False
             | Num a \<Rightarrow> 1 \<le> a \<and> 0 \<le> oldLength h \<and>
                 a + oldLength h - 1 \<le> int (length (split_newlines ?o))"
      by (simp add: list_all_iff)
    then show "\<exists>a. hunk_oldLineNumber h = Num a \<and> 1 \<le> a \<and> 0 \<le> oldLength h \<and>
        a + oldLength h - 1 \<le> int (length (split_newlines ?o))"
      by (cases "hunk_oldLineNumber h") simp_all
  qed
  have g: "getModifiedContentFromDiffHunk ?o ?p = Inr (''a'' @ [LF] @ ''b'' @ [LF] @ ''x'' @ [LF] @ ''c'')"
    by code_simp
  from reads_within_bounds [OF p h] p h g show ?thesis by blast
qed

text \<open>
  Without the bound on the length the property fails: the header
  \<^verbatim>\<open>@@ -4,4294967291 +1 @@\<close> is decoded with the original length \<open>-5\<close>, since
  \<^verbatim>\<open>4294967291 | 0\<close> is \<open>-5\<close>; the hunk satisfies \<open>4 \<ge> 1\<close> and \<open>4 + (-5) - 1 \<le> 1\<close> for
  the one-line original content \<open>a\<close>, and the copy loops read \<^verbatim>\<open>left\<close> at the indices
  1, 2, -2 and -1.
\<close>

theorem reads_within_bounds_counterexample:
  "parseDiffHunk ''@@ -4,4294967291 +1 @@'' =
     Inr [\<lparr>hunk_oldLineNumber = Num 4, oldLength = - 5, hunk_newLineNumber = Num 1,
           newLength = 0, hunk_positionInHunk = 0,
           diffLines = [\<lparr>type = Control, oldLineNumber = Num (- 1),
             newLineNumber = Num (- 1), positionInHunk = 0,
             raw = ''@@ -4,4294967291 +1 @@'', endwithLineBreak = True\<rparr>]\<rparr>] \<and>
   split_newlines ''a'' = [''a''] \<and>
   (1::int) \<le> 4 \<and> (4::int) + (- 5) - 1 \<le> int (length (split_newlines ''a'')) \<and>
   right_lines (split_newlines ''a'')
     [\<lparr>hunk_oldLineNumber = Num 4, oldLength = - 5, hunk_newLineNumber = Num 1,
       newLength = 0, hunk_positionInHunk = 0,
       diffLines = [\<lparr>type = Control, oldLineNumber = Num (- 1),
         newLineNumber = Num (- 1), positionInHunk = 0,
         raw = ''@@ -4,4294967291 +1 @@'', endwithLineBreak = True\<rparr>]\<rparr>]
     = [Some ''a'', None, None, None, None, Some ''a'']"
  by code_simp

subsection \<open>The reconstruction example\<close>

text \<open>
  C4: reconstructing the original content \<open>a LF b LF c\<close> with the patch whose lines are
  \<^verbatim>\<open>@@ -1,3 +1,3 @@\<close>, \<^verbatim>\<open> a\<close>, \<^verbatim>\<open>-b\<close>, \<^verbatim>\<open>+B\<close> and \<^verbatim>\<open> c\<close> returns exactly
  \<open>a LF B LF c\<close>.
\<close>

theorem reconstruct_example:
  "getModifiedContentFromDiffHunk (''a'' @ [LF] @ ''b'' @ [LF] @ ''c'')
     (''@@ -1,3 +1,3 @@'' @ [LF] @ '' a'' @ [LF] @ ''-b'' @ [LF] @ ''+B'' @ [LF] @ '' c'')
   = Inr (''a'' @ [LF] @ ''B'' @ [LF] @ ''c'')"
  by code_simp

subsection \<open>The status-label table\<close>

text \<open>
  C10: the status label \<open>removed\<close> maps to DELETE, \<open>added\<close> to ADD, \<open>renamed\<close> to
  RENAME, \<open>modified\<close> to MODIFY, and every other string to UNKNOWN.
\<close>

theorem getGitChangeType_table:
  "getGitChangeType ''removed'' = DELETE \<and>
   getGitChangeType ''added'' = ADD \<and>
   getGitChangeType ''renamed'' = RENAME \<and>
   getGitChangeType ''modified'' = MODIFY \<and>
   (status \<notin> {''removed'', ''added'', ''renamed'', ''modified''} \<longrightarrow>
      getGitChangeType status = UNKNOWN)"
  by (simp add: getGitChangeType_def)

theorem getGitChangeType_table_witness:
  "''unknown-label'' \<notin> {''removed'', ''added'', ''renamed'', ''modified''} \<and>
   getGitChangeType ''unknown-label'' = UNKNOWN"
  using getGitChangeType_table [of "''unknown-label''"] by simp

end
